theory Spec2Isabelle
  imports Main
begin

section \<open>The lexer (graphql/core/language/lexer.py)\<close>

text \<open>
  A Python text string is a sequence of code points, so the body of a source is a list of
  natural numbers (the \<^verbatim>\<open>ord\<close> of each character). Offsets into the body are natural
  numbers: the lexer starts at offset 0 and only ever adds to an offset.
\<close>

type_synonym ustr = "nat list"

text \<open>\<^verbatim>\<open>ord\<close> of the characters of an ASCII literal, for writing inputs down.\<close>

definition codes :: "string \<Rightarrow> ustr" where
  "codes s = map of_char s"

text \<open>The slice \<^verbatim>\<open>s[i:j]\<close> for non-negative \<^verbatim>\<open>i\<close>, \<^verbatim>\<open>j\<close>: clipped at the end of \<^verbatim>\<open>s\<close>, empty when \<^verbatim>\<open>j <= i\<close>.\<close>

definition slice :: "'a list \<Rightarrow> nat \<Rightarrow> nat \<Rightarrow> 'a list" where
  "slice s i j = take (j - i) (drop i s)"

text \<open>
  The kinds of \<^verbatim>\<open>TokenKind\<close>; \<^verbatim>\<open>INT\<close> is written \<open>INT'\<close>, the plain name being taken by
  the syntax of intersections.
\<close>

datatype TokenKind =
  EOF | BANG | DOLLAR | PAREN_L | PAREN_R | SPREAD | COLON | EQUALS | AT
  | BRACKET_L | BRACKET_R | BRACE_L | PIPE | BRACE_R | NAME | VARIABLE
  | INT' | FLOAT | STRING

text \<open>
  \<^verbatim>\<open>Token(kind, start, end, value=None)\<close>. The fields carry the prefix \<open>tok_\<close> so that the
  local variables of the lexer keep their names.
\<close>

record Token =
  tok_kind :: TokenKind
  tok_start :: nat
  tok_end :: nat
  tok_value :: "ustr option"

definition Token :: "TokenKind \<Rightarrow> nat \<Rightarrow> nat \<Rightarrow> ustr option \<Rightarrow> Token" where
  "Token kind start end value =
     \<lparr>tok_kind = kind, tok_start = start, tok_end = end, tok_value = value\<rparr>"

text \<open>The source object: the lexer reads its \<^verbatim>\<open>body\<close> only.\<close>

record Source =
  src_body :: ustr

text \<open>
  \<^verbatim>\<open>LanguageError(source, position, message)\<close>. The four messages of the lexer are the
  constructors of \<open>message\<close>; \<open>Unexpected_character c\<close> stands for
  \<^verbatim>\<open>'Unexpected character ' + json.dumps(body[position])\<close> with \<open>c\<close> the code of that character.
\<close>

datatype message =
  Unexpected_character nat
  | Invalid_number
  | Bad_character_escape_sequence
  | Unterminated_string

datatype LanguageError = LanguageError Source nat message

definition char_code_at :: "ustr \<Rightarrow> nat \<Rightarrow> nat" where
  "char_code_at s pos = (if pos < length s then s ! pos else 0)"

definition PUNCT_CODE_TO_KIND :: "nat \<rightharpoonup> TokenKind" where
  "PUNCT_CODE_TO_KIND = map_of
     [(of_char CHR ''!'', BANG), (of_char CHR ''$'', DOLLAR),
      (of_char CHR ''('', PAREN_L), (of_char CHR '')'', PAREN_R),
      (of_char CHR '':'', COLON), (of_char CHR ''='', EQUALS),
      (of_char CHR ''@'', AT), (of_char CHR ''['', BRACKET_L),
      (of_char CHR '']'', BRACKET_R), (of_char CHR ''{'', BRACE_L),
      (of_char CHR ''|'', PIPE), (of_char CHR ''}'', BRACE_R)]"

subsection \<open>Whitespace and comments\<close>

text \<open>The inner loop of \<^verbatim>\<open>position_after_whitespace\<close>: to the end of a comment.\<close>

function comment_end :: "ustr \<Rightarrow> nat \<Rightarrow> nat" where
  "comment_end body position =
     (if position < length body then
        (let code = char_code_at body position in
         if code = 0 \<or> code \<in> {10, 13, 0x2028, 0x2029} then position
         else comment_end body (position + 1))
      else position)"
  by pat_completeness auto
termination
  by (relation "measure (\<lambda>(body, position). length body - position)") auto

declare comment_end.simps [simp del]

lemma comment_end_ge: "position \<le> comment_end body position"
proof (induction body position rule: comment_end.induct)
  case (1 body position)
  show ?case
  proof (cases "position < length body \<and>
      \<not> (char_code_at body position = 0 \<or> char_code_at body position \<in> {10, 13, 0x2028, 0x2029})")
    case True
    with "1.IH" have "position + 1 \<le> comment_end body (position + 1)"
      by simp
    with True show ?thesis
      by (simp add: comment_end.simps [of body position])
  next
    case False
    then show ?thesis
      by (auto simp: comment_end.simps [of body position] Let_def)
  qed
qed

function position_after_whitespace :: "ustr \<Rightarrow> nat \<Rightarrow> nat" where
  "position_after_whitespace body position =
     (if position < length body then
        (let code = char_code_at body position in
         if code \<in> {32, 44, 160, 0x2028, 0x2029} \<or> (code > 8 \<and> code < 14) then
           position_after_whitespace body (position + 1)
         else if code = 35 then
           position_after_whitespace body (comment_end body (position + 1))
         else position)
      else position)"
  by pat_completeness auto
termination
proof (relation "measure (\<lambda>(body, position). length body - position)")
  show "wf (measure (\<lambda>(body, position). length body - position))"
    by simp
next
  fix body :: ustr and position code :: nat
  assume "position < length body"
  then show "((body, position + 1), body, position)
      \<in> measure (\<lambda>(body, position). length body - position)"
    by simp
next
  fix body :: ustr and position code :: nat
  assume lt: "position < length body"
  have "position + 1 \<le> comment_end body (position + 1)"
    by (rule comment_end_ge)
  with lt show "((body, comment_end body (position + 1)), body, position)
      \<in> measure (\<lambda>(body, position). length body - position)"
    by simp
qed

declare position_after_whitespace.simps [simp del]

subsection \<open>Names\<close>

text \<open>The loop of \<^verbatim>\<open>read_name\<close>, over the variable \<^verbatim>\<open>end\<close>.\<close>

function read_name_loop :: "ustr \<Rightarrow> nat \<Rightarrow> nat" where
  "read_name_loop body end =
     (if end \<noteq> length body then
        (let code = char_code_at body end in
         if code = 0 \<or> \<not> (code = 95 \<or> (48 \<le> code \<and> code \<le> 57)
              \<or> (65 \<le> code \<and> code \<le> 90) \<or> (97 \<le> code \<and> code \<le> 122))
         then end
         else read_name_loop body (end + 1))
      else end)"
  by pat_completeness auto
termination
  by (relation "measure (\<lambda>(body, end). length body - end)")
    (auto simp: char_code_at_def split: if_splits)

declare read_name_loop.simps [simp del]

definition read_name :: "Source \<Rightarrow> nat \<Rightarrow> LanguageError + Token" where
  "read_name source position =
     (let body = src_body source;
          end = read_name_loop body (position + 1)
      in Inr (Token NAME position end (Some (slice body position end))))"

subsection \<open>Numbers\<close>

text \<open>
  Each of the three digit loops of \<^verbatim>\<open>read_number\<close>,
  \<^verbatim>\<open>while 48 <= code <= 57: position += 1; code = char_code_at(body, position)\<close>,
  entered with \<^verbatim>\<open>code = char_code_at(body, position)\<close>: the offset it stops at.
  In \<open>read_number\<close> the two statements under each \<^verbatim>\<open>if code == 45\<close> are the two
  conditional updates guarded by \<open>minus\<close>, the test on the code read before them.
\<close>

function read_digits :: "ustr \<Rightarrow> nat \<Rightarrow> nat" where
  "read_digits body position =
     (if 48 \<le> char_code_at body position \<and> char_code_at body position \<le> 57 then
        read_digits body (position + 1)
      else position)"
  by pat_completeness auto
termination
  by (relation "measure (\<lambda>(body, position). length body - position)")
    (auto simp: char_code_at_def split: if_splits)

declare read_digits.simps [simp del]

definition read_number :: "Source \<Rightarrow> nat \<Rightarrow> nat \<Rightarrow> LanguageError + Token" where
  "read_number source start first_code =
     (let body = src_body source;
          minus = (first_code = 45);
          position = (if minus then start + 1 else start);
          code = (if minus then char_code_at body position else first_code)
      in
      if code = 48 \<or> (49 \<le> code \<and> code \<le> 57) then
        (let position =
               (if code = 48 then position + 1 else read_digits body (position + 1));
             code = char_code_at body position
         in
         if code = 46 then
           (let position = position + 1;
                code = char_code_at body position
            in
            if 48 \<le> code \<and> code \<le> 57 then
              (let position = read_digits body (position + 1);
                   code = char_code_at body position
               in
               if code = 101 then
                 (let position = position + 1;
                      code = char_code_at body position;
                      minus = (code = 45);
                      position = (if minus then position + 1 else position);
                      code = (if minus then char_code_at body position else code)
                  in
                  if 48 \<le> code \<and> code \<le> 57 then
                    (let position = read_digits body (position + 1)
                     in Inr (Token FLOAT start position (Some (slice body start position))))
                  else Inl (LanguageError source position Invalid_number))
               else Inr (Token FLOAT start position (Some (slice body start position))))
            else Inl (LanguageError source position Invalid_number))
         else Inr (Token INT' start position (Some (slice body start position))))
      else Inl (LanguageError source position Invalid_number))"

subsection \<open>Strings\<close>

definition ESCAPED_CHAR_CODES :: "nat \<rightharpoonup> nat" where
  "ESCAPED_CHAR_CODES = map_of
     [(34, 34), (47, 47), (92, 92), (98, 8), (102, 12), (110, 10), (114, 13), (116, 9)]"

definition char2hex :: "int \<Rightarrow> int" where
  "char2hex a =
     (if 48 \<le> a \<and> a \<le> 57 then a - 48
      else if 65 \<le> a \<and> a \<le> 70 then a - 55
      else if 97 \<le> a \<and> a \<le> 102 then a - 87
      else - 1)"

definition uni_char_code :: "int \<Rightarrow> int \<Rightarrow> int \<Rightarrow> int \<Rightarrow> int" where
  "uni_char_code a b c d =
     or (or (or (push_bit 12 (char2hex a)) (push_bit 8 (char2hex b)))
       (push_bit 4 (char2hex c))) (char2hex d)"

text \<open>
  The \<^verbatim>\<open>while\<close> loop of \<^verbatim>\<open>read_string\<close> over its four variables. \<^verbatim>\<open>code\<close> is \<^verbatim>\<open>None\<close>
  before the first iteration. The loop returns the variables at its exit, or the error
  raised inside it.
\<close>

function read_string_loop ::
  "Source \<Rightarrow> nat \<Rightarrow> nat \<Rightarrow> nat option \<Rightarrow> ustr
    \<Rightarrow> LanguageError + (nat \<times> nat \<times> nat option \<times> ustr)" where
  "read_string_loop source position chunk_start code value =
     (let body = src_body source in
      if position < length body then
        (let code = char_code_at body position in
         if code = 0 \<or> code \<in> {34, 10, 13, 0x2028, 0x2029} then
           Inr (position, chunk_start, Some code, value)
         else
           (let position = position + 1 in
            if code = 92 then
              (let value = value @ slice body chunk_start (position - 1);
                   code = char_code_at body position
               in
               case ESCAPED_CHAR_CODES code of
                 Some escaped \<Rightarrow>
                   read_string_loop source (position + 1) (position + 1) (Some code)
                     (value @ [escaped])
               | None \<Rightarrow>
                   if code = 117 then
                     (let char_code = uni_char_code
                            (int (char_code_at body (position + 1)))
                            (int (char_code_at body (position + 2)))
                            (int (char_code_at body (position + 3)))
                            (int (char_code_at body (position + 4)))
                      in
                      if char_code < 0 then
                        Inl (LanguageError source position Bad_character_escape_sequence)
                      else
                        read_string_loop source (position + 4 + 1) (position + 4 + 1)
                          (Some code) (value @ [nat char_code]))
                   else Inl (LanguageError source position Bad_character_escape_sequence))
            else read_string_loop source position chunk_start (Some code) value))
      else Inr (position, chunk_start, code, value))"
  by pat_completeness auto
termination
  by (relation "measure (\<lambda>(source, position, chunk_start, code, value).
        length (src_body source) - position)") auto

declare read_string_loop.simps [simp del]

definition read_string :: "Source \<Rightarrow> nat \<Rightarrow> LanguageError + Token" where
  "read_string source start =
     (let body = src_body source in
      case read_string_loop source (start + 1) (start + 1) None [] of
        Inl err \<Rightarrow> Inl err
      | Inr (position, chunk_start, code, value) \<Rightarrow>
          if code \<noteq> Some 34 then Inl (LanguageError source position Unterminated_string)
          else Inr (Token STRING start (position + 1)
                 (Some (value @ slice body chunk_start position))))"

subsection \<open>Tokens\<close>

definition read_token :: "Source \<Rightarrow> nat \<Rightarrow> LanguageError + Token" where
  "read_token source from_position =
     (let body = src_body source;
          body_length = length body;
          position = position_after_whitespace body from_position;
          code = char_code_at body position
      in
      if position \<ge> body_length then Inr (Token EOF position position None)
      else
        case PUNCT_CODE_TO_KIND code of
          Some kind \<Rightarrow> Inr (Token kind position (position + 1) None)
        | None \<Rightarrow>
            if code = 46 then
              (if char_code_at body (position + 1) = 46
                  \<and> char_code_at body (position + 2) = 46
               then Inr (Token SPREAD position (position + 3) None)
               else Inl (LanguageError source position
                      (Unexpected_character (body ! position))))
            else if (65 \<le> code \<and> code \<le> 90) \<or> code = 95 \<or> (97 \<le> code \<and> code \<le> 122) then
              read_name source position
            else if code = 45 \<or> (48 \<le> code \<and> code \<le> 57) then
              read_number source position code
            else if code = 34 then
              read_string source position
            else Inl (LanguageError source position
                   (Unexpected_character (body ! position))))"

text \<open>
  The cursor: \<^verbatim>\<open>Lexer.next_token(reset_position=None)\<close>. An error of \<^verbatim>\<open>read_token\<close>
  propagates before \<^verbatim>\<open>prev_position\<close> is written.
\<close>

record Lexer =
  lex_source :: Source
  prev_position :: nat

definition Lexer :: "Source \<Rightarrow> Lexer" where
  "Lexer source = \<lparr>lex_source = source, prev_position = 0\<rparr>"

definition next_token :: "Lexer \<Rightarrow> nat option \<Rightarrow> LanguageError + (Token \<times> Lexer)" where
  "next_token self reset_position =
     (let reset_position =
            (case reset_position of None \<Rightarrow> prev_position self | Some p \<Rightarrow> p)
      in
      case read_token (lex_source self) reset_position of
        Inl err \<Rightarrow> Inl err
      | Inr token \<Rightarrow> Inr (token, self\<lparr>prev_position := tok_end token\<rparr>))"

section \<open>Validation (graphql/core/validation/__init__.py)\<close>

subsection \<open>The syntax tree, the schema and Python values\<close>

text \<open>
  The key under which the traversal reaches a node: an index into a list
  (\<^verbatim>\<open>document.definitions[1]\<close>) or the name of an attribute. The root of a traversal has
  the key \<^verbatim>\<open>None\<close>, so the parameter \<^verbatim>\<open>key\<close> is a \<open>key option\<close>.
\<close>

datatype key = Index nat | Attr string

text \<open>The truth value of \<^verbatim>\<open>key\<close> in \<^verbatim>\<open>... and key and ...\<close>: \<^verbatim>\<open>None\<close>, \<^verbatim>\<open>0\<close> and \<^verbatim>\<open>''\<close> are false.\<close>

fun truthy_key :: "key option \<Rightarrow> bool" where
  "truthy_key None = False"
| "truthy_key (Some (Index i)) = (i \<noteq> 0)"
| "truthy_key (Some (Attr a)) = (a \<noteq> [])"

text \<open>
  Modelled from the spec: the node classes of \<^verbatim>\<open>language/ast.py\<close>, which is not among the
  sources. A node has its class, the value of its \<^verbatim>\<open>name\<close> sub-node (\<^verbatim>\<open>node.name.value\<close>;
  unused for a class with no name) and its child nodes in traversal order, each with the
  key under which the traversal reaches it. The definitions of a document are its
  children, keyed by their indices.
\<close>

datatype node_class =
  Document | OperationDefinition | FragmentDefinition | FragmentSpread
  | SelectionSet | Field | OtherNode

datatype Node = Node (node_class: node_class) (name_value: string) (children: "(key \<times> Node) list")

definition definitions :: "Node \<Rightarrow> Node list" where
  "definitions document = map snd (children document)"

text \<open>A document with the given definitions, in order.\<close>

definition document_of :: "Node list \<Rightarrow> Node" where
  "document_of defs = Node Document [] (zip (map Index [0..<length defs]) defs)"

text \<open>The schema object: validation hands it on and never looks inside.\<close>

datatype GraphQLSchema = GraphQLSchema string

datatype GraphQLError = GraphQLError string

text \<open>
  The Python values a rule's \<^verbatim>\<open>enter\<close> or \<^verbatim>\<open>leave\<close> returns, as far as the visitor tells
  them apart: \<^verbatim>\<open>None\<close>, \<^verbatim>\<open>False\<close>, an error object, a list, and any other object with its
  truth value.
\<close>

datatype pyvalue =
  PyNone | PyFalse | PyError GraphQLError | PyList "pyvalue list" | PyOther bool

fun truthy :: "pyvalue \<Rightarrow> bool" where
  "truthy PyNone = False"
| "truthy PyFalse = False"
| "truthy (PyError e) = True"
| "truthy (PyList items) = (items \<noteq> [])"
| "truthy (PyOther b) = b"

fun is_GraphQLError :: "pyvalue \<Rightarrow> bool" where
  "is_GraphQLError (PyError e) = True"
| "is_GraphQLError v = False"

fun is_error :: "pyvalue \<Rightarrow> bool" where
  "is_error (PyList items) = list_all is_GraphQLError items"
| "is_error v = is_GraphQLError v"

text \<open>\<^verbatim>\<open>append(arr, items)\<close>, named \<open>append_items\<close> beside the list append of HOL.\<close>

fun append_items :: "pyvalue list \<Rightarrow> pyvalue \<Rightarrow> pyvalue list" where
  "append_items arr (PyList items) = arr @ items"
| "append_items arr v = arr @ [v]"

subsection \<open>TypeInfo\<close>

text \<open>
  Modelled from the spec: \<^verbatim>\<open>utils.TypeInfo\<close>, which is not among the sources, is a
  "stack-based type context updated on tree enter/leave": \<^verbatim>\<open>enter(node)\<close> pushes the
  context of \<^verbatim>\<open>node\<close>, \<^verbatim>\<open>leave(node)\<close> pops it. The context of a node is represented by
  the node.
\<close>

type_synonym TypeInfo = "Node list"

definition TypeInfo :: "GraphQLSchema \<Rightarrow> TypeInfo" where
  "TypeInfo schema = []"

definition TypeInfo_enter :: "TypeInfo \<Rightarrow> Node \<Rightarrow> TypeInfo" where
  "TypeInfo_enter self node = node # self"

definition TypeInfo_leave :: "TypeInfo \<Rightarrow> Node \<Rightarrow> TypeInfo" where
  "TypeInfo_leave self node = tl self"

subsection \<open>ValidationContext\<close>

text \<open>
  \<^verbatim>\<open>_schema\<close>, \<^verbatim>\<open>_ast\<close> and \<^verbatim>\<open>_fragments\<close> (\<^verbatim>\<open>None\<close> until the first \<^verbatim>\<open>get_fragment\<close>, then the
  dictionary). \<^verbatim>\<open>_type_info\<close> is a reference to the one TypeInfo object of the run, which
  the visitor carries (\<open>vis_type_info\<close>). \<open>ctx_scans\<close> is instrumentation and no field of the
  source: it counts the executions of the loop over the document's definitions.
\<close>

record ValidationContext =
  ctx_schema :: GraphQLSchema
  ctx_ast :: Node
  ctx_fragments :: "(string \<rightharpoonup> Node) option"
  ctx_scans :: nat

definition ValidationContext :: "GraphQLSchema \<Rightarrow> Node \<Rightarrow> ValidationContext" where
  "ValidationContext schema ast =
     \<lparr>ctx_schema = schema, ctx_ast = ast, ctx_fragments = None, ctx_scans = 0\<rparr>"

definition get_ast :: "ValidationContext \<Rightarrow> Node" where
  "get_ast self = ctx_ast self"

text \<open>
  The loop of \<^verbatim>\<open>get_fragment\<close>:
  \<^verbatim>\<open>for statement in ...: if isinstance(statement, FragmentDefinition): fragments[statement.name.value] = statement\<close>.
\<close>

definition scan_definitions :: "Node list \<Rightarrow> (string \<rightharpoonup> Node) \<Rightarrow> (string \<rightharpoonup> Node)" where
  "scan_definitions statements fragments =
     fold (\<lambda>statement fragments.
            if node_class statement = FragmentDefinition
            then fragments(name_value statement \<mapsto> statement)
            else fragments)
       statements fragments"

text \<open>\<^verbatim>\<open>get_fragment(name)\<close> returns \<^verbatim>\<open>fragments.get(name)\<close> and leaves the context updated.\<close>

definition get_fragment :: "ValidationContext \<Rightarrow> string \<Rightarrow> Node option \<times> ValidationContext" where
  "get_fragment self name =
     (case ctx_fragments self of
        None \<Rightarrow>
          (let fragments = scan_definitions (definitions (get_ast self)) Map.empty
           in (fragments name,
               self\<lparr>ctx_fragments := Some fragments, ctx_scans := ctx_scans self + 1\<rparr>))
      | Some fragments \<Rightarrow> (fragments name, self))"

text \<open>Calls of \<^verbatim>\<open>get_fragment\<close> one after the other on one context: the values returned.\<close>

fun get_fragments :: "ValidationContext \<Rightarrow> string list \<Rightarrow> Node option list \<times> ValidationContext" where
  "get_fragments self [] = ([], self)"
| "get_fragments self (name # names) =
     (let (fragment, self) = get_fragment self name;
          (fragments, self) = get_fragments self names
      in (fragment # fragments, self))"

subsection \<open>Rules and the ValidationVisitor\<close>

text \<open>
  A rule instance: the context it was made with, its own attributes \<open>'a\<close>, the attribute
  \<^verbatim>\<open>visit_spread_fragments\<close> if it has one, and its methods \<^verbatim>\<open>enter\<close> and \<^verbatim>\<open>leave\<close>. A method
  gets the attributes and the current TypeInfo (which a rule reads through the context),
  then \<^verbatim>\<open>node, key, parent, path, ancestors\<close>; it returns a value and the attributes.
\<close>

type_synonym 'a hook =
  "'a \<Rightarrow> TypeInfo \<Rightarrow> Node \<Rightarrow> key option \<Rightarrow> Node option \<Rightarrow> key list \<Rightarrow> Node list
    \<Rightarrow> pyvalue \<times> 'a"

record 'a rule_instance =
  rule_context :: ValidationContext
  rule_attrs :: 'a
  rule_visit_spread_fragments :: "bool option"
  rule_enter :: "'a hook"
  rule_leave :: "'a hook"

type_synonym 'a rule = "ValidationContext \<Rightarrow> 'a rule_instance"

record 'a ValidationVisitor =
  vis_instance :: "'a rule_instance"
  vis_type_info :: TypeInfo
  vis_errors :: "pyvalue list"
  vis_visit_spread_fragments :: bool

text \<open>\<^verbatim>\<open>__init__\<close>, with \<^verbatim>\<open>getattr(self.instance, 'visit_spread_fragments', False)\<close>.\<close>

definition ValidationVisitor ::
  "'a rule_instance \<Rightarrow> TypeInfo \<Rightarrow> pyvalue list \<Rightarrow> 'a ValidationVisitor" where
  "ValidationVisitor instance type_info errors =
     \<lparr>vis_instance = instance, vis_type_info = type_info, vis_errors = errors,
      vis_visit_spread_fragments =
        (case rule_visit_spread_fragments instance of None \<Rightarrow> False | Some b \<Rightarrow> b)\<rparr>"

text \<open>
  \<^verbatim>\<open>ValidationVisitor.enter\<close>. The traversal function \<^verbatim>\<open>visit\<close> of \<^verbatim>\<open>language/visitor.py\<close> is not
  among the sources: \<open>enter\<close> takes it as the parameter \<open>visit\<close>, which returns the visitor
  after the traversal, or \<open>None\<close> if the traversal does not return. The result is the value
  returned and the visitor after the call.
\<close>

definition enter ::
  "(Node \<Rightarrow> 'a ValidationVisitor \<Rightarrow> 'a ValidationVisitor option)
    \<Rightarrow> 'a ValidationVisitor \<Rightarrow> Node \<Rightarrow> key option \<Rightarrow> Node option \<Rightarrow> key list \<Rightarrow> Node list
    \<Rightarrow> (pyvalue \<times> 'a ValidationVisitor) option" where
  "enter visit self node key parent path ancestors =
     (let self = self\<lparr>vis_type_info := TypeInfo_enter (vis_type_info self) node\<rparr> in
      if node_class node = FragmentDefinition \<and> truthy_key key \<and> vis_visit_spread_fragments self
      then Some (PyFalse, self)
      else
        (let instance = vis_instance self;
             (result, attrs) =
               rule_enter instance (rule_attrs instance) (vis_type_info self)
                 node key parent path ancestors;
             self = self\<lparr>vis_instance := instance\<lparr>rule_attrs := attrs\<rparr>\<rparr>;
             is_err = (truthy result \<and> is_error result);
             self = (if is_err then self\<lparr>vis_errors := append_items (vis_errors self) result\<rparr>
                     else self);
             result = (if is_err then PyFalse else result);
             visited =
               (if result = PyNone \<and> vis_visit_spread_fragments self
                   \<and> node_class node = FragmentSpread
                then
                  (let instance = vis_instance self;
                       (fragment, context) = get_fragment (rule_context instance) (name_value node);
                       self = self\<lparr>vis_instance := instance\<lparr>rule_context := context\<rparr>\<rparr>
                   in case fragment of None \<Rightarrow> Some self | Some fragment \<Rightarrow> visit fragment self)
                else Some self)
         in case visited of
              None \<Rightarrow> None
            | Some self \<Rightarrow>
                Some (result,
                  if result = PyFalse
                  then self\<lparr>vis_type_info := TypeInfo_leave (vis_type_info self) node\<rparr>
                  else self)))"

text \<open>\<^verbatim>\<open>ValidationVisitor.leave\<close>.\<close>

definition leave ::
  "'a ValidationVisitor \<Rightarrow> Node \<Rightarrow> key option \<Rightarrow> Node option \<Rightarrow> key list \<Rightarrow> Node list
    \<Rightarrow> pyvalue \<times> 'a ValidationVisitor" where
  "leave self node key parent path ancestors =
     (let instance = vis_instance self;
          (result, attrs) =
            rule_leave instance (rule_attrs instance) (vis_type_info self)
              node key parent path ancestors;
          self = self\<lparr>vis_instance := instance\<lparr>rule_attrs := attrs\<rparr>\<rparr>;
          is_err = (truthy result \<and> is_error result);
          self = (if is_err then self\<lparr>vis_errors := append_items (vis_errors self) result\<rparr>
                  else self);
          result = (if is_err then PyFalse else result);
          self = self\<lparr>vis_type_info := TypeInfo_leave (vis_type_info self) node\<rparr>
      in (result, self))"

subsection \<open>The traversal\<close>

text \<open>
  Modelled from the spec: \<^verbatim>\<open>visit(root, visitor)\<close> of \<^verbatim>\<open>language/visitor.py\<close>, which is not
  among the sources, is the "generic enter/leave tree walk with path and ancestor
  tracking", depth first. The root is entered with the key \<^verbatim>\<open>None\<close>. When \<^verbatim>\<open>enter\<close>
  returns \<^verbatim>\<open>None\<close> ("continue into children") the children are visited in order, each
  under its key, and then the node is left; any other result of \<^verbatim>\<open>enter\<close> is "do not
  descend": neither the children are visited nor \<^verbatim>\<open>leave\<close> is called. The result of
  \<^verbatim>\<open>leave\<close> has no effect on the walk.

  \<^verbatim>\<open>enter\<close> calls \<^verbatim>\<open>visit\<close> again for a fragment spread, and nothing bounds that
  recursion, so the walk has a fuel parameter that every visit of a node decreases:
  \<open>None\<close> is a walk that did not return within the fuel.
\<close>

fun visit_node ::
  "nat \<Rightarrow> Node \<Rightarrow> key option \<Rightarrow> Node option \<Rightarrow> key list \<Rightarrow> Node list
    \<Rightarrow> 'a ValidationVisitor \<Rightarrow> 'a ValidationVisitor option"
  and visit_children ::
  "nat \<Rightarrow> Node \<Rightarrow> (key \<times> Node) list \<Rightarrow> key list \<Rightarrow> Node list
    \<Rightarrow> 'a ValidationVisitor \<Rightarrow> 'a ValidationVisitor option" where
  "visit_node 0 node key parent path ancestors visitor = None"
| "visit_node (Suc fuel) node key parent path ancestors visitor =
     (case enter (\<lambda>fragment visitor. visit_node fuel fragment None None [] [] visitor)
             visitor node key parent path ancestors of
        None \<Rightarrow> None
      | Some (result, visitor) \<Rightarrow>
          if result = PyNone then
            (case visit_children fuel node (children node) path
                    (ancestors @ (case parent of None \<Rightarrow> [] | Some p \<Rightarrow> [p])) visitor of
               None \<Rightarrow> None
             | Some visitor \<Rightarrow> Some (snd (leave visitor node key parent path ancestors)))
          else Some visitor)"
| "visit_children fuel node [] path ancestors visitor = Some visitor"
| "visit_children fuel node ((key, child) # rest) path ancestors visitor =
     (case visit_node fuel child (Some key) (Some node) (path @ [key]) ancestors visitor of
        None \<Rightarrow> None
      | Some visitor \<Rightarrow> visit_children fuel node rest path ancestors visitor)"

definition visit :: "nat \<Rightarrow> Node \<Rightarrow> 'a ValidationVisitor \<Rightarrow> 'a ValidationVisitor option" where
  "visit fuel root visitor = visit_node fuel root None None [] [] visitor"

subsection \<open>validate\<close>

text \<open>
  The loop of \<^verbatim>\<open>visit_using_rules\<close> over the rules. The TypeInfo, the context and the list
  of errors are one object each for the whole run: the loop hands them from one rule's
  visitor to the next.
\<close>

fun visit_rules ::
  "nat \<Rightarrow> Node \<Rightarrow> 'a rule list \<Rightarrow> TypeInfo \<Rightarrow> ValidationContext \<Rightarrow> pyvalue list
    \<Rightarrow> (TypeInfo \<times> ValidationContext \<times> pyvalue list) option" where
  "visit_rules fuel ast [] type_info context errors = Some (type_info, context, errors)"
| "visit_rules fuel ast (rule # rules) type_info context errors =
     (let instance = rule context in
      case visit fuel ast (ValidationVisitor instance type_info errors) of
        None \<Rightarrow> None
      | Some visitor \<Rightarrow>
          visit_rules fuel ast rules (vis_type_info visitor)
            (rule_context (vis_instance visitor)) (vis_errors visitor))"

definition visit_using_rules ::
  "nat \<Rightarrow> GraphQLSchema \<Rightarrow> Node \<Rightarrow> 'a rule list \<Rightarrow> pyvalue list option" where
  "visit_using_rules fuel schema ast rules =
     (let type_info = TypeInfo schema;
          context = ValidationContext schema ast;
          errors = []
      in map_option (\<lambda>(type_info, context, errors). errors)
           (visit_rules fuel ast rules type_info context errors))"

text \<open>
  The arguments of \<^verbatim>\<open>validate\<close>. \<^verbatim>\<open>schema\<close> is \<^verbatim>\<open>None\<close>, a \<^verbatim>\<open>GraphQLSchema\<close> or another
  object, of which the assertions see the truth value only; \<^verbatim>\<open>ast\<close> is \<^verbatim>\<open>None\<close> or a
  document; \<^verbatim>\<open>rules\<close> is \<^verbatim>\<open>None\<close> or a list. A failed \<^verbatim>\<open>assert\<close> raises \<^verbatim>\<open>AssertionError\<close>
  with its message. The list \<^verbatim>\<open>specified_rules\<close> names rules of a module that is not
  among the sources: it is the first parameter.
\<close>

datatype schema_argument = No_schema | Other_object bool | Schema GraphQLSchema

datatype AssertionError = AssertionError string

definition validate ::
  "'a rule list \<Rightarrow> nat \<Rightarrow> schema_argument \<Rightarrow> Node option \<Rightarrow> 'a rule list option
    \<Rightarrow> (AssertionError + pyvalue list) option" where
  "validate specified_rules fuel schema ast rules =
     (case schema of
        No_schema \<Rightarrow> Some (Inl (AssertionError ''Must provide schema''))
      | Other_object b \<Rightarrow>
          if \<not> b then Some (Inl (AssertionError ''Must provide schema''))
          else if ast = None then Some (Inl (AssertionError ''Must provide document''))
          else Some (Inl (AssertionError ''''))
      | Schema s \<Rightarrow>
          (case ast of
             None \<Rightarrow> Some (Inl (AssertionError ''Must provide document''))
           | Some document \<Rightarrow>
               (let rules = (case rules of None \<Rightarrow> specified_rules | Some rs \<Rightarrow> rs)
                in map_option Inr (visit_using_rules fuel s document rules))))"

section \<open>Notions used by the properties\<close>

subsection \<open>Of the lexer\<close>

text \<open>
  The integer part in the spec's words: the single digit \<^verbatim>\<open>0\<close>, or a nonzero digit
  followed by digits.
\<close>

definition integer_part :: "ustr \<Rightarrow> bool" where
  "integer_part ds =
     (case ds of
        [] \<Rightarrow> False
      | d # rest \<Rightarrow>
          (d = 48 \<and> rest = [])
          \<or> (49 \<le> d \<and> d \<le> 57 \<and> list_all (\<lambda>c. 48 \<le> c \<and> c \<le> 57) rest))"

text \<open>
  Each token of a run starts where the whitespace and comments after the previous token
  (after \<open>position\<close>, for the first one) end.
\<close>

fun chained :: "ustr \<Rightarrow> nat \<Rightarrow> Token list \<Rightarrow> bool" where
  "chained body position [] = True"
| "chained body position (token # tokens) =
     (tok_start token = position_after_whitespace body position
      \<and> chained body (tok_end token) tokens)"

subsection \<open>Of validation\<close>

text \<open>
  The contexts a run can reach: the cache is empty, or it is the dictionary built from the
  document's definitions.
\<close>

definition cached :: "ValidationContext \<Rightarrow> bool" where
  "cached self =
     (ctx_fragments self = None
      \<or> ctx_fragments self = Some (scan_definitions (definitions (get_ast self)) Map.empty))"

text \<open>
  The document \<^verbatim>\<open>{ ...A }  fragment A on T { ...A }\<close>: a query that spreads the fragment
  \<^verbatim>\<open>A\<close>, and the fragment \<^verbatim>\<open>A\<close>, which spreads itself.
\<close>

definition spread_A :: Node where
  "spread_A = Node FragmentSpread ''A'' []"

definition selection_A :: Node where
  "selection_A = Node SelectionSet [] [(Index 0, spread_A)]"

definition fragment_A :: Node where
  "fragment_A = Node FragmentDefinition ''A'' [(Attr ''selection_set'', selection_A)]"

definition query_A :: Node where
  "query_A = Node OperationDefinition [] [(Attr ''selection_set'', selection_A)]"

definition cyclic_document :: Node where
  "cyclic_document = document_of [query_A, fragment_A]"

text \<open>
  \<open>inlining_rule\<close> opts into spread-fragment inlining and returns \<^verbatim>\<open>None\<close> (continue) from
  every call; \<open>careful_rule\<close> opts in too and returns \<^verbatim>\<open>False\<close> at every fragment spread;
  \<open>plain_rule\<close> has no attribute \<^verbatim>\<open>visit_spread_fragments\<close>.
\<close>

definition continue_hook :: "unit hook" where
  "continue_hook attrs type_info node key parent path ancestors = (PyNone, attrs)"

definition inlining_rule :: "unit rule" where
  "inlining_rule context =
     \<lparr>rule_context = context, rule_attrs = (), rule_visit_spread_fragments = Some True,
      rule_enter = continue_hook, rule_leave = continue_hook\<rparr>"

definition skip_spreads_hook :: "unit hook" where
  "skip_spreads_hook attrs type_info node key parent path ancestors =
     (if node_class node = FragmentSpread then PyFalse else PyNone, attrs)"

definition careful_rule :: "unit rule" where
  "careful_rule context =
     \<lparr>rule_context = context, rule_attrs = (), rule_visit_spread_fragments = Some True,
      rule_enter = skip_spreads_hook, rule_leave = continue_hook\<rparr>"

definition plain_rule :: "unit rule" where
  "plain_rule context =
     \<lparr>rule_context = context, rule_attrs = (), rule_visit_spread_fragments = None,
      rule_enter = continue_hook, rule_leave = continue_hook\<rparr>"

text \<open>A second definition of the fragment \<^verbatim>\<open>A\<close>, with no selections.\<close>

definition fragment_A' :: Node where
  "fragment_A' = Node FragmentDefinition ''A'' []"

text \<open>
  The visitors of \<open>inlining_rule\<close> on the cyclic document: what \<^verbatim>\<open>enter\<close> keeps while the
  rule walks.
\<close>

definition continues_and_inlines :: "unit ValidationVisitor \<Rightarrow> bool" where
  "continues_and_inlines self =
     (vis_visit_spread_fragments self
      \<and> rule_enter (vis_instance self) = continue_hook
      \<and> ctx_ast (rule_context (vis_instance self)) = cyclic_document
      \<and> cached (rule_context (vis_instance self)))"

section \<open>Properties of the lexer\<close>

subsection \<open>Offsets and slices\<close>

lemma code_nth: "pos < length s \<Longrightarrow> char_code_at s pos = s ! pos"
  by (simp add: char_code_at_def)

lemma digit_pos: "48 \<le> char_code_at s pos \<Longrightarrow> pos < length s"
  by (simp add: char_code_at_def split: if_splits)

lemma eq_pos: "char_code_at s pos = c \<Longrightarrow> 0 < c \<Longrightarrow> pos < length s"
  by (simp add: char_code_at_def split: if_splits)

lemma read_digits_ge: "position \<le> read_digits body position"
proof (induction body position rule: read_digits.induct)
  case (1 body position)
  show ?case
  proof (cases "48 \<le> char_code_at body position \<and> char_code_at body position \<le> 57")
    case True
    with "1.IH" have "position + 1 \<le> read_digits body (position + 1)" by simp
    with True show ?thesis by (simp add: read_digits.simps [of body position])
  next
    case False
    then show ?thesis by (auto simp: read_digits.simps [of body position])
  qed
qed

lemma read_digits_le: "position \<le> length body \<Longrightarrow> read_digits body position \<le> length body"
proof (induction body position rule: read_digits.induct)
  case (1 body position)
  show ?case
  proof (cases "48 \<le> char_code_at body position \<and> char_code_at body position \<le> 57")
    case True
    then have "position < length body" by (auto intro: digit_pos)
    with "1.IH" True have "read_digits body (position + 1) \<le> length body" by simp
    with True show ?thesis by (simp add: read_digits.simps [of body position])
  next
    case False
    with "1.prems" show ?thesis by (auto simp: read_digits.simps [of body position])
  qed
qed

lemma read_digits_all:
  "position \<le> i \<Longrightarrow> i < read_digits body position \<Longrightarrow> 48 \<le> body ! i \<and> body ! i \<le> 57"
proof (induction body position rule: read_digits.induct)
  case (1 body position)
  show ?case
  proof (cases "48 \<le> char_code_at body position \<and> char_code_at body position \<le> 57")
    case True
    then have lt: "position < length body" by (auto intro: digit_pos)
    show ?thesis
    proof (cases "i = position")
      case True
      with \<open>48 \<le> char_code_at body position \<and> char_code_at body position \<le> 57\<close> lt
      show ?thesis by (simp add: char_code_at_def)
    next
      case False
      with "1.prems" have "position + 1 \<le> i" by simp
      moreover from "1.prems" True have "i < read_digits body (position + 1)"
        by (simp add: read_digits.simps [of body position])
      ultimately show ?thesis using "1.IH" True by simp
    qed
  next
    case False
    with "1.prems" show ?thesis by (auto simp: read_digits.simps [of body position])
  qed
qed

lemma slice_append: "i \<le> j \<Longrightarrow> j \<le> k \<Longrightarrow> slice s i k = slice s i j @ slice s j k"
proof -
  assume a: "i \<le> j" "j \<le> k"
  then have "k - i = (j - i) + (k - j)" by simp
  then have "take (k - i) (drop i s) = take (j - i) (drop i s) @ take (k - j) (drop (j - i) (drop i s))"
    by (simp add: take_add)
  with a show ?thesis by (simp add: slice_def)
qed

lemma slice_one: "i < length s \<Longrightarrow> slice s i (i + 1) = [s ! i]"
  by (simp add: slice_def take_Suc_conv_app_nth Cons_nth_drop_Suc[symmetric] take_Suc)

lemma slice_empty: "slice s i i = []"
  by (simp add: slice_def)


lemma nth_in_slice: "i \<le> k \<Longrightarrow> k < j \<Longrightarrow> j \<le> length s \<Longrightarrow> s ! k \<in> set (slice s i j)"
proof -
  assume a: "i \<le> k" "k < j" "j \<le> length s"
  then have "slice s i j ! (k - i) = s ! k" and "k - i < length (slice s i j)"
    by (simp_all add: slice_def)
  then show ?thesis by (metis nth_mem)
qed

lemma in_slice_nth:
  "x \<in> set (slice s i j) \<Longrightarrow> \<exists>k. i \<le> k \<and> k < j \<and> k < length s \<and> x = s ! k"
proof -
  assume "x \<in> set (slice s i j)"
  then obtain n where n: "n < length (slice s i j)" "x = slice s i j ! n"
    by (metis in_set_conv_nth)
  then have "i \<le> i + n \<and> i + n < j \<and> i + n < length s \<and> x = s ! (i + n)"
    by (auto simp: slice_def)
  then show ?thesis by blast
qed

lemma hd_slice: "i < j \<Longrightarrow> i < length s \<Longrightarrow> hd (slice s i j) = s ! i"
  by (simp add: slice_def hd_drop_conv_nth)


lemma read_number_unfolded:
  fixes src start
  defines "body \<equiv> src_body src"
  defines "ip \<equiv> (if char_code_at body start = 45 then start + 1 else start)"
  defines "ie \<equiv> (if char_code_at body ip = 48 then ip + 1 else read_digits body (ip + 1))"
  defines "c \<equiv> char_code_at body ip"
  defines "fs \<equiv> ie + 1"
  defines "fe \<equiv> read_digits body (fs + 1)"
  defines "xs \<equiv> (if char_code_at body (fe + 1) = 45 then fe + 1 + 1 else fe + 1)"
  defines "xe \<equiv> read_digits body (xs + 1)"
  shows "read_number src start (char_code_at body start) =
    (if c = 48 \<or> (49 \<le> c \<and> c \<le> 57) then
       if char_code_at body ie = 46 then
         if 48 \<le> char_code_at body fs \<and> char_code_at body fs \<le> 57 then
           if char_code_at body fe = 101 then
             if 48 \<le> char_code_at body xs \<and> char_code_at body xs \<le> 57 then
               Inr (Token FLOAT start xe (Some (slice body start xe)))
             else Inl (LanguageError src xs Invalid_number)
           else Inr (Token FLOAT start fe (Some (slice body start fe)))
         else Inl (LanguageError src fs Invalid_number)
       else Inr (Token INT' start ie (Some (slice body start ie)))
     else Inl (LanguageError src ip Invalid_number))"
proof -
  have e1: "(if char_code_at body start = 45 then char_code_at body ip else char_code_at body start) = c"
    by (simp add: c_def ip_def)
  have e2: "(if char_code_at body (fe + 1) = 45 then char_code_at body xs else char_code_at body (fe + 1))
     = char_code_at body xs"
    by (simp add: xs_def)
  have e3: "(if c = 48 then ip + 1 else read_digits body (ip + 1)) = ie"
    by (simp add: ie_def c_def)
  show ?thesis
    unfolding read_number_def Let_def
    unfolding body_def [symmetric] ip_def [symmetric] e1 e3 fs_def [symmetric]
      fe_def [symmetric] xs_def [symmetric] e2 xe_def [symmetric]
    by (rule refl)
qed

lemma read_number_shape:
  assumes ok: "read_number src start (char_code_at (src_body src) start) = Inr tok"
  defines "body \<equiv> src_body src"
  defines "ip \<equiv> (if char_code_at body start = 45 then start + 1 else start)"
  defines "ie \<equiv> (if char_code_at body ip = 48 then ip + 1 else read_digits body (ip + 1))"
  shows "(char_code_at body ip = 48 \<or> (49 \<le> char_code_at body ip \<and> char_code_at body ip \<le> 57))
    \<and> tok_start tok = start
    \<and> tok_value tok = Some (slice body start (tok_end tok))
    \<and> ip < ie \<and> ie \<le> tok_end tok \<and> tok_end tok \<le> length body
    \<and> (tok_kind tok = INT' \<and> tok_end tok = ie \<and> char_code_at body ie \<noteq> 46
        \<or> tok_kind tok = FLOAT \<and> char_code_at body ie = 46 \<and> ie + 2 \<le> tok_end tok)"
proof -
  define c where "c = char_code_at body ip"
  define fs where "fs = ie + 1"
  define fe where "fe = read_digits body (fs + 1)"
  define xs where "xs = (if char_code_at body (fe + 1) = 45 then fe + 1 + 1 else fe + 1)"
  define xe where "xe = read_digits body (xs + 1)"
  have res: "(if c = 48 \<or> (49 \<le> c \<and> c \<le> 57) then
       if char_code_at body ie = 46 then
         if 48 \<le> char_code_at body fs \<and> char_code_at body fs \<le> 57 then
           if char_code_at body fe = 101 then
             if 48 \<le> char_code_at body xs \<and> char_code_at body xs \<le> 57 then
               Inr (Token FLOAT start xe (Some (slice body start xe)))
             else Inl (LanguageError src xs Invalid_number)
           else Inr (Token FLOAT start fe (Some (slice body start fe)))
         else Inl (LanguageError src fs Invalid_number)
       else Inr (Token INT' start ie (Some (slice body start ie)))
     else Inl (LanguageError src ip Invalid_number)) = Inr tok"
    using ok
    unfolding read_number_unfolded xe_def xs_def fe_def fs_def c_def ie_def ip_def body_def .
  then have c: "c = 48 \<or> (49 \<le> c \<and> c \<le> 57)"
    by (simp split: if_splits)
  then have "ip < length body"
    unfolding c_def by (auto intro: digit_pos)
  then have ie: "ip + 1 \<le> ie" "ie \<le> length body"
    using read_digits_ge [of "ip + 1" body] read_digits_le [of "ip + 1" body]
    by (simp_all add: ie_def)
  show ?thesis
  proof (cases "char_code_at body ie = 46")
    case False
    with res c have "tok = Token INT' start ie (Some (slice body start ie))"
      by auto
    with False c ie show ?thesis
      by (simp add: Token_def c_def)
  next
    case dot: True
    then have "ie < length body"
      by (auto intro: eq_pos)
    with res c dot have fd: "48 \<le> char_code_at body fs \<and> char_code_at body fs \<le> 57"
      by (simp split: if_splits)
    then have "fs < length body"
      by (auto intro: digit_pos)
    then have fe: "fs + 1 \<le> fe" "fe \<le> length body"
      using read_digits_ge [of "fs + 1" body] read_digits_le [of "fs + 1" body]
      by (simp_all add: fe_def)
    show ?thesis
    proof (cases "char_code_at body fe = 101")
      case False
      with res c dot fd have "tok = Token FLOAT start fe (Some (slice body start fe))"
        by auto
      with dot c ie fe show ?thesis
        by (simp add: Token_def c_def fs_def)
    next
      case e: True
      then have "fe < length body"
        by (auto intro: eq_pos)
      from res c dot fd e have xd: "48 \<le> char_code_at body xs \<and> char_code_at body xs \<le> 57"
        by (simp split: if_splits)
      then have "xs < length body"
        by (auto intro: digit_pos)
      then have xe: "xs + 1 \<le> xe" "xe \<le> length body"
        using read_digits_ge [of "xs + 1" body] read_digits_le [of "xs + 1" body]
        by (simp_all add: xe_def)
      have "fe \<le> xs"
        by (simp add: xs_def)
      from res c dot fd e xd have "tok = Token FLOAT start xe (Some (slice body start xe))"
        by auto
      with dot c ie fe xe \<open>fe \<le> xs\<close> show ?thesis
        by (simp add: Token_def c_def fs_def)
    qed
  qed
qed

subsection \<open>Progress of the scanning loops and of \<open>read_token\<close>\<close>

lemma position_after_whitespace_ge: "position \<le> position_after_whitespace body position"
proof (induction body position rule: position_after_whitespace.induct)
  case (1 body position)
  define code where "code = char_code_at body position"
  consider (stop) "\<not> position < length body"
    | (ws) "position < length body"
        "code \<in> {32, 44, 160, 0x2028, 0x2029} \<or> (code > 8 \<and> code < 14)"
    | (comment) "position < length body"
        "\<not> (code \<in> {32, 44, 160, 0x2028, 0x2029} \<or> (code > 8 \<and> code < 14))" "code = 35"
    | (other) "position < length body"
        "\<not> (code \<in> {32, 44, 160, 0x2028, 0x2029} \<or> (code > 8 \<and> code < 14))" "code \<noteq> 35"
    by blast
  then show ?case
  proof cases
    case stop
    then show ?thesis
      by (simp add: position_after_whitespace.simps [of body position])
  next
    case ws
    with "1.IH"(1) [of code] have "position + 1 \<le> position_after_whitespace body (position + 1)"
      by (simp add: code_def)
    moreover from ws have "position_after_whitespace body position
        = position_after_whitespace body (position + 1)"
      by (subst position_after_whitespace.simps) (simp add: code_def Let_def)
    ultimately show ?thesis by simp
  next
    case comment
    with "1.IH"(2) [of code] have "comment_end body (position + 1)
        \<le> position_after_whitespace body (comment_end body (position + 1))"
      by (simp add: code_def)
    moreover have "position + 1 \<le> comment_end body (position + 1)"
      by (rule comment_end_ge)
    moreover from comment have "position_after_whitespace body position
        = position_after_whitespace body (comment_end body (position + 1))"
      by (subst position_after_whitespace.simps) (simp add: code_def Let_def)
    ultimately show ?thesis by simp
  next
    case other
    then show ?thesis
      by (subst position_after_whitespace.simps) (auto simp: code_def Let_def)
  qed
qed

lemma read_name_loop_ge: "e \<le> read_name_loop body e"
proof (induction body e rule: read_name_loop.induct)
  case (1 body e)
  define code where "code = char_code_at body e"
  show ?case
  proof (cases "e \<noteq> length body \<and> \<not> (code = 0 \<or> \<not> (code = 95 \<or> (48 \<le> code \<and> code \<le> 57)
              \<or> (65 \<le> code \<and> code \<le> 90) \<or> (97 \<le> code \<and> code \<le> 122)))")
    case True
    with "1.IH" [of code] have "e + 1 \<le> read_name_loop body (e + 1)"
      by (simp add: code_def)
    moreover from True have "read_name_loop body e = read_name_loop body (e + 1)"
      by (subst read_name_loop.simps) (auto simp: code_def Let_def)
    ultimately show ?thesis by simp
  next
    case False
    then have "read_name_loop body e = e"
      by (subst read_name_loop.simps) (auto simp: code_def Let_def)
    then show ?thesis by simp
  qed
qed

lemma read_string_loop_ge:
  "read_string_loop src position chunk_start code val = Inr (p, cs, c, v) \<Longrightarrow> position \<le> p"
proof (induction "length (src_body src) - position"
    arbitrary: position chunk_start code val rule: less_induct)
  case less
  have step: "position' \<le> p"
    if "read_string_loop src position' cs' c' v' = Inr (p, cs, c, v)"
      and "position < position'" and "position < length (src_body src)"
    for position' cs' c' v'
    using less.hyps [of position' cs' c' v'] that by simp
  from less.prems show ?case
    by (subst (asm) read_string_loop.simps)
      (auto simp: Let_def split: if_splits option.splits dest!: step)
qed

lemma PUNCT_CODE_TO_KIND_kind:
  "PUNCT_CODE_TO_KIND code = Some k \<Longrightarrow>
     k \<noteq> EOF \<and> k \<noteq> INT' \<and> k \<noteq> FLOAT \<and> k \<noteq> NAME \<and> k \<noteq> STRING \<and> k \<noteq> SPREAD"
  by (auto simp: PUNCT_CODE_TO_KIND_def split: if_splits)

lemma read_token_start:
  "read_token src p = Inr tok \<Longrightarrow> tok_start tok = position_after_whitespace (src_body src) p"
  by (auto simp: read_token_def Let_def Token_def read_name_def read_string_def
      dest!: read_number_shape
      split: if_splits option.splits sum.splits prod.splits)

lemma read_token_EOF:
  "read_token src p = Inr tok \<Longrightarrow> tok_kind tok = EOF \<Longrightarrow>
     tok_end tok = tok_start tok \<and> length (src_body src) \<le> tok_start tok \<and> tok_value tok = None"
  by (auto simp: read_token_def Let_def Token_def read_name_def read_string_def
      dest!: read_number_shape PUNCT_CODE_TO_KIND_kind
      split: if_splits option.splits sum.splits prod.splits)

lemma read_token_progress:
  assumes "read_token src p = Inr tok" and "tok_kind tok \<noteq> EOF"
  shows "tok_start tok < tok_end tok \<and> tok_start tok < length (src_body src)"
proof -
  define body where "body = src_body src"
  define position where "position = position_after_whitespace body p"
  define code where "code = char_code_at body position"
  have name: "position < read_name_loop body (Suc position)"
    using read_name_loop_ge [of "Suc position" body] by simp
  have number: "position < tok_end t \<and> tok_start t = position"
    if "read_number src position c = Inr t" and "code = c" for t c
  proof -
    from that have "read_number src position (char_code_at (src_body src) position) = Inr t"
      by (simp add: code_def body_def)
    from read_number_shape [OF this] show ?thesis
      by (auto split: if_splits)
  qed
  have string: "position < q"
    if "read_string_loop src (Suc position) (Suc position) None [] = Inr (q, r)" for q r
    using that read_string_loop_ge [of src "Suc position" "Suc position" None "[]" q]
    by (cases r) auto
  from assms show ?thesis
    unfolding read_token_def Let_def body_def [symmetric] position_def [symmetric]
      code_def [symmetric]
    by (auto simp: Token_def read_name_def read_string_def name Let_def body_def [symmetric]
      dest: number string
      split: if_splits option.splits sum.splits prod.splits)
qed

lemma read_token_number:
  assumes "read_token src p = Inr tok" and "tok_kind tok = INT' \<or> tok_kind tok = FLOAT"
  shows "read_number src (tok_start tok) (char_code_at (src_body src) (tok_start tok)) = Inr tok"
proof -
  from assms(1) have start: "tok_start tok = position_after_whitespace (src_body src) p"
    by (rule read_token_start)
  from assms show ?thesis
    unfolding start
    by (auto simp: read_token_def Let_def Token_def read_name_def read_string_def
      dest!: PUNCT_CODE_TO_KIND_kind
      split: if_splits option.splits sum.splits prod.splits)
qed

subsection \<open>Resuming: \<open>next_token\<close> called until EOF\<close>

text \<open>
  A consumer of the lexer: \<^verbatim>\<open>next_token()\<close> is called with no position, again and again,
  until it raises or returns an EOF token; the result is the error or the tokens returned,
  in order. Every call that returns another token moves \<open>prev_position\<close> forward
  (\<open>read_token_progress\<close>), which is why the calls end.
\<close>

function tokens_from :: "Lexer \<Rightarrow> LanguageError + Token list" where
  "tokens_from lexer =
     (case next_token lexer None of
        Inl err \<Rightarrow> Inl err
      | Inr (token, lexer') \<Rightarrow>
          if tok_kind token = EOF then Inr [token]
          else (case tokens_from lexer' of
                  Inl err \<Rightarrow> Inl err
                | Inr tokens \<Rightarrow> Inr (token # tokens)))"
  by pat_completeness auto
termination
proof (relation "measure (\<lambda>lexer. length (src_body (lex_source lexer)) - prev_position lexer)")
  show "wf (measure (\<lambda>lexer. length (src_body (lex_source lexer)) - prev_position lexer))"
    by simp
next
  fix lexer :: Lexer and x token lexer'
  assume nt: "next_token lexer None = Inr x" and x: "(token, lexer') = x"
    and kind: "tok_kind token \<noteq> EOF"
  from nt x have rt: "read_token (lex_source lexer) (prev_position lexer) = Inr token"
    and l': "lexer' = lexer\<lparr>prev_position := tok_end token\<rparr>"
    by (auto simp: next_token_def split: sum.splits)
  from read_token_progress [OF rt kind] read_token_start [OF rt]
    position_after_whitespace_ge [of "prev_position lexer" "src_body (lex_source lexer)"]
  show "(lexer', lexer)
      \<in> measure (\<lambda>lexer. length (src_body (lex_source lexer)) - prev_position lexer)"
    by (auto simp: l')
qed

declare tokens_from.simps [simp del]

subsection \<open>Number tokens\<close>

lemma read_number_parts:
  assumes ok: "read_number src start (char_code_at (src_body src) start) = Inr tok"
  defines "body \<equiv> src_body src"
  defines "ip \<equiv> (if char_code_at body start = 45 then start + 1 else start)"
  defines "ie \<equiv> (if char_code_at body ip = 48 then ip + 1 else read_digits body (ip + 1))"
  shows "slice body start ip = (if char_code_at body start = 45 then [45] else [])"
    and "integer_part (slice body ip ie)"
    and "tok_value tok = Some (slice body start ip @ slice body ip ie @ slice body ie (tok_end tok))"
proof -
  note shape = read_number_shape [OF ok, folded body_def, folded ip_def, folded ie_def]
  then have c: "char_code_at body ip = 48
      \<or> (49 \<le> char_code_at body ip \<and> char_code_at body ip \<le> 57)"
    and ie: "ip < ie" "ie \<le> tok_end tok" "tok_end tok \<le> length body"
    and val: "tok_value tok = Some (slice body start (tok_end tok))"
    by simp_all
  have ip: "start \<le> ip"
    by (simp add: ip_def)
  show "slice body start ip = (if char_code_at body start = 45 then [45] else [])"
  proof (cases "char_code_at body start = 45")
    case True
    then have "start < length body"
      by (auto intro: eq_pos)
    with True show ?thesis
      using slice_one [of start body] by (simp add: ip_def code_nth)
  next
    case False
    then show ?thesis
      by (simp add: ip_def slice_empty)
  qed
  from ie have lt: "ip < length body"
    by simp
  then have first: "body ! ip = char_code_at body ip"
    by (simp add: code_nth)
  show "integer_part (slice body ip ie)"
  proof (cases "char_code_at body ip = 48")
    case True
    with lt first show ?thesis
      using slice_one [of ip body] by (simp add: ie_def integer_part_def)
  next
    case False
    then have ie_eq: "ie = read_digits body (ip + 1)"
      by (simp add: ie_def)
    have "slice body ip ie = slice body ip (ip + 1) @ slice body (ip + 1) ie"
      using ie(1) by (intro slice_append) simp_all
    with lt have split: "slice body ip ie = body ! ip # slice body (ip + 1) ie"
      using slice_one [of ip body] by simp
    have "48 \<le> x \<and> x \<le> 57" if "x \<in> set (slice body (ip + 1) ie)" for x
    proof -
      from in_slice_nth [OF that] obtain k where "ip + 1 \<le> k" "k < ie" "x = body ! k"
        by blast
      then show ?thesis
        using read_digits_all [of "ip + 1" k body] by (simp add: ie_eq)
    qed
    then have "list_all (\<lambda>c. 48 \<le> c \<and> c \<le> 57) (slice body (ip + 1) ie)"
      by (simp add: list_all_iff)
    with c False first show ?thesis
      by (simp add: split integer_part_def)
  qed
  have "slice body start (tok_end tok) = slice body start ip @ slice body ip (tok_end tok)"
    using ip ie by (intro slice_append) simp_all
  moreover have "slice body ip (tok_end tok) = slice body ip ie @ slice body ie (tok_end tok)"
    using ie by (intro slice_append) simp_all
  ultimately show "tok_value tok
      = Some (slice body start ip @ slice body ip ie @ slice body ie (tok_end tok))"
    by (simp add: val)
qed

lemma read_number_int_chars:
  assumes ok: "read_number src start (char_code_at (src_body src) start) = Inr tok"
    and kind: "tok_kind tok = INT'"
    and x: "x \<in> set (slice (src_body src) start (tok_end tok))"
  shows "x = 45 \<or> (48 \<le> x \<and> x \<le> 57)"
proof -
  define body where "body = src_body src"
  define ip where "ip = (if char_code_at body start = 45 then start + 1 else start)"
  define ie where "ie = (if char_code_at body ip = 48 then ip + 1 else read_digits body (ip + 1))"
  note shape = read_number_shape [OF ok, folded body_def, folded ip_def, folded ie_def]
  with kind have c: "char_code_at body ip = 48
      \<or> (49 \<le> char_code_at body ip \<and> char_code_at body ip \<le> 57)"
    and ie: "ip < ie" "tok_end tok = ie" "ie \<le> length body"
    by auto
  from in_slice_nth [OF x] ie obtain k where k: "start \<le> k" "k < ie" "k < length body"
    and xk: "x = body ! k"
    by (auto simp: body_def)
  consider (sign) "k < ip" | (first) "k = ip" | (digits) "ip + 1 \<le> k"
    by linarith
  then show ?thesis
  proof cases
    case sign
    with k have "k = start" "char_code_at body start = 45"
      by (auto simp: ip_def split: if_splits)
    with k show ?thesis
      by (simp add: xk code_nth [symmetric])
  next
    case first
    with c k show ?thesis
      by (auto simp: xk code_nth)
  next
    case digits
    with k have "ie = read_digits body (ip + 1)"
      by (auto simp: ie_def split: if_splits)
    with digits k read_digits_all [of "ip + 1" k body] show ?thesis
      by (simp add: xk)
  qed
qed

text \<open>
  Claim C3 says that lexing \<^verbatim>\<open>01\<close> from offset 0 raises a lexical error at offset 1.
  \<^verbatim>\<open>read_number\<close> stops after a leading \<^verbatim>\<open>0\<close> without looking at what follows, as its
  grammar \<^verbatim>\<open>-?(0|[1-9][0-9]*)\<close> says: the call returns the INT token \<^verbatim>\<open>0\<close> over \<open>[0,1)\<close> and
  raises nothing.
\<close>

theorem lex_01_counterexample:
  "read_token \<lparr>src_body = codes ''01''\<rparr> 0 = Inr (Token INT' 0 1 (Some (codes ''0'')))
   \<and> \<not> isl (read_token \<lparr>src_body = codes ''01''\<rparr> 0)"
  by (simp add: read_token_def codes_def position_after_whitespace.simps char_code_at_def
        PUNCT_CODE_TO_KIND_def read_number_def slice_def read_digits.simps Token_def)

text \<open>
  Claim C3, amended: lexing \<^verbatim>\<open>01\<close> from offset 0 returns the INT token \<^verbatim>\<open>0\<close> over \<open>[0,1)\<close>
  (and from offset 1 the INT token \<^verbatim>\<open>1\<close>), with no lexical error; and the value of every
  number token is an optional \<^verbatim>\<open>-\<close>, then an integer part that is either the single digit
  \<^verbatim>\<open>0\<close> or a nonzero digit followed by digits, then nothing or a rest that starts with
  \<^verbatim>\<open>.\<close>.
\<close>

theorem number_token_integer_part:
  "read_token \<lparr>src_body = codes ''01''\<rparr> 0 = Inr (Token INT' 0 1 (Some (codes ''0'')))
   \<and> read_token \<lparr>src_body = codes ''01''\<rparr> 1 = Inr (Token INT' 1 2 (Some (codes ''1'')))
   \<and> (\<forall>source from_position tok.
        read_token source from_position = Inr tok
        \<and> (tok_kind tok = INT' \<or> tok_kind tok = FLOAT)
        \<longrightarrow> (\<exists>sign digits rest.
              tok_value tok = Some (sign @ digits @ rest)
              \<and> (sign = [] \<or> sign = [45])
              \<and> integer_part digits
              \<and> (rest = [] \<or> hd rest = 46)))"
proof (intro conjI allI impI)
  show "read_token \<lparr>src_body = codes ''01''\<rparr> 0 = Inr (Token INT' 0 1 (Some (codes ''0'')))"
    by (simp add: read_token_def codes_def position_after_whitespace.simps char_code_at_def
        PUNCT_CODE_TO_KIND_def read_number_def slice_def read_digits.simps Token_def)
next
  show "read_token \<lparr>src_body = codes ''01''\<rparr> 1 = Inr (Token INT' 1 2 (Some (codes ''1'')))"
    by (simp add: read_token_def codes_def position_after_whitespace.simps char_code_at_def
        PUNCT_CODE_TO_KIND_def read_number_def slice_def read_digits.simps Token_def)
next
  fix source from_position tok
  assume a: "read_token source from_position = Inr tok
      \<and> (tok_kind tok = INT' \<or> tok_kind tok = FLOAT)"
  define body where "body = src_body source"
  define start where "start = tok_start tok"
  define ip where "ip = (if char_code_at body start = 45 then start + 1 else start)"
  define ie where "ie = (if char_code_at body ip = 48 then ip + 1 else read_digits body (ip + 1))"
  from a have rt: "read_token source from_position = Inr tok"
    and kinds: "tok_kind tok = INT' \<or> tok_kind tok = FLOAT"
    by simp_all
  have ok: "read_number source start (char_code_at (src_body source) start) = Inr tok"
    unfolding start_def using rt kinds by (rule read_token_number)
  note shape = read_number_shape [OF ok, folded body_def, folded ip_def, folded ie_def]
  note parts = read_number_parts [OF ok, folded body_def, folded ip_def, folded ie_def]
  have rest: "slice body ie (tok_end tok) = [] \<or> hd (slice body ie (tok_end tok)) = 46"
  proof (cases "tok_kind tok = INT'")
    case True
    with shape have "tok_end tok = ie"
      by auto
    then show ?thesis
      by (simp add: slice_empty)
  next
    case False
    with shape have dot: "char_code_at body ie = 46" and le: "ie + 2 \<le> tok_end tok"
      "tok_end tok \<le> length body"
      by auto
    then have "hd (slice body ie (tok_end tok)) = body ! ie"
      by (intro hd_slice) simp_all
    with dot le show ?thesis
      by (simp add: code_nth)
  qed
  have sign: "slice body start ip = [] \<or> slice body start ip = [45]"
    by (simp add: parts(1))
  from parts(3) sign parts(2) rest
  show "\<exists>sign digits rest.
      tok_value tok = Some (sign @ digits @ rest)
      \<and> (sign = [] \<or> sign = [45])
      \<and> integer_part digits
      \<and> (rest = [] \<or> hd rest = 46)"
    by blast
qed

theorem number_token_integer_part_witness:
  "read_token \<lparr>src_body = codes ''-12.5''\<rparr> 0 = Inr (Token FLOAT 0 5 (Some (codes ''-12.5'')))
   \<and> (\<exists>sign digits rest.
        codes ''-12.5'' = sign @ digits @ rest
        \<and> (sign = [] \<or> sign = [45])
        \<and> integer_part digits
        \<and> (rest = [] \<or> hd rest = 46))"
proof -
  have h: "read_token \<lparr>src_body = codes ''-12.5''\<rparr> 0
      = Inr (Token FLOAT 0 5 (Some (codes ''-12.5'')))"
    by (simp add: read_token_def codes_def position_after_whitespace.simps char_code_at_def
        PUNCT_CODE_TO_KIND_def read_number_def slice_def read_digits.simps Token_def)
  then have "read_token \<lparr>src_body = codes ''-12.5''\<rparr> 0
      = Inr (Token FLOAT 0 5 (Some (codes ''-12.5'')))
      \<and> (tok_kind (Token FLOAT 0 5 (Some (codes ''-12.5''))) = INT'
          \<or> tok_kind (Token FLOAT 0 5 (Some (codes ''-12.5''))) = FLOAT)"
    by (simp add: Token_def)
  with number_token_integer_part
  have "\<exists>sign digits rest.
      tok_value (Token FLOAT 0 5 (Some (codes ''-12.5''))) = Some (sign @ digits @ rest)
      \<and> (sign = [] \<or> sign = [45])
      \<and> integer_part digits
      \<and> (rest = [] \<or> hd rest = 46)"
    by blast
  with h show ?thesis
    by (simp add: Token_def)
qed

text \<open>
  Claim C4 says that a number with an exponent and no fractional part, such as \<^verbatim>\<open>1e5\<close>,
  lexes as a FLOAT. \<^verbatim>\<open>read_number\<close> looks for an exponent only after a fractional part
  (\<^verbatim>\<open>Float: -?(0|[1-9][0-9]*)\.[0-9]+(e-?[0-9]+)?\<close>): \<^verbatim>\<open>1e5\<close> lexes as the INT token \<^verbatim>\<open>1\<close>.
\<close>

theorem lex_1e5_counterexample:
  "read_token \<lparr>src_body = codes ''1e5''\<rparr> 0 = Inr (Token INT' 0 1 (Some (codes ''1'')))
   \<and> tok_kind (Token INT' 0 1 (Some (codes ''1''))) \<noteq> FLOAT"
  by (simp add: read_token_def codes_def position_after_whitespace.simps char_code_at_def
        PUNCT_CODE_TO_KIND_def read_number_def slice_def read_digits.simps Token_def)

text \<open>
  Claim C4, amended: for every successfully lexed number token, the value is the exact
  matched substring \<^verbatim>\<open>body[start:end]\<close>, which is not empty and lies inside the body; the
  kind is FLOAT if a fractional part was present in the matched text (it contains a
  \<^verbatim>\<open>.\<close>) and INT otherwise; an exponent is matched only after a fractional part (matched
  text with an \<^verbatim>\<open>e\<close> has a \<^verbatim>\<open>.\<close>). \<^verbatim>\<open>1.5e-10\<close> lexes as one FLOAT with value
  \<^verbatim>\<open>1.5e-10\<close>; \<^verbatim>\<open>1e5\<close> lexes as the INT \<^verbatim>\<open>1\<close> over \<open>[0,1)\<close>, followed by the NAME \<^verbatim>\<open>e5\<close>.
\<close>

theorem number_token_kind_and_value:
  "(\<forall>source from_position tok.
      read_token source from_position = Inr tok \<and> (tok_kind tok = INT' \<or> tok_kind tok = FLOAT)
      \<longrightarrow>
        tok_value tok = Some (slice (src_body source) (tok_start tok) (tok_end tok))
        \<and> tok_start tok < tok_end tok \<and> tok_end tok \<le> length (src_body source)
        \<and> (tok_kind tok = FLOAT
             \<longleftrightarrow> 46 \<in> set (slice (src_body source) (tok_start tok) (tok_end tok)))
        \<and> (101 \<in> set (slice (src_body source) (tok_start tok) (tok_end tok))
             \<longrightarrow> 46 \<in> set (slice (src_body source) (tok_start tok) (tok_end tok))))
   \<and> read_token \<lparr>src_body = codes ''1.5e-10''\<rparr> 0
       = Inr (Token FLOAT 0 7 (Some (codes ''1.5e-10'')))
   \<and> read_token \<lparr>src_body = codes ''1e5''\<rparr> 0 = Inr (Token INT' 0 1 (Some (codes ''1'')))
   \<and> read_token \<lparr>src_body = codes ''1e5''\<rparr> 1 = Inr (Token NAME 1 3 (Some (codes ''e5'')))"
proof (intro conjI allI impI)
  fix source from_position tok
  assume a: "read_token source from_position = Inr tok
      \<and> (tok_kind tok = INT' \<or> tok_kind tok = FLOAT)"
  define body where "body = src_body source"
  define start where "start = tok_start tok"
  define ip where "ip = (if char_code_at body start = 45 then start + 1 else start)"
  define ie where "ie = (if char_code_at body ip = 48 then ip + 1 else read_digits body (ip + 1))"
  from a have rt: "read_token source from_position = Inr tok"
    and kinds: "tok_kind tok = INT' \<or> tok_kind tok = FLOAT"
    by simp_all
  have ok: "read_number source start (char_code_at (src_body source) start) = Inr tok"
    unfolding start_def using rt kinds by (rule read_token_number)
  note shape = read_number_shape [OF ok, folded body_def, folded ip_def, folded ie_def]
  have ip: "start \<le> ip"
    by (simp add: ip_def)
  from shape show val: "tok_value tok = Some (slice (src_body source) (tok_start tok) (tok_end tok))"
    by (simp add: body_def start_def)
  from shape ip show "tok_start tok < tok_end tok"
    by (simp add: start_def)
  from shape show "tok_end tok \<le> length (src_body source)"
    by (simp add: body_def)
  have int: "46 \<notin> set (slice body start (tok_end tok)) \<and> 101 \<notin> set (slice body start (tok_end tok))"
    if "tok_kind tok = INT'"
    using read_number_int_chars [OF ok that, of 46] read_number_int_chars [OF ok that, of 101]
    by (auto simp: body_def)
  have float: "46 \<in> set (slice body start (tok_end tok))" if "tok_kind tok = FLOAT"
  proof -
    from shape that have dot: "char_code_at body ie = 46" and le: "ie + 2 \<le> tok_end tok"
      "tok_end tok \<le> length body" "ip < ie"
      by auto
    then have "body ! ie = 46"
      by (simp add: code_nth [symmetric])
    moreover from ip le have "body ! ie \<in> set (slice body start (tok_end tok))"
      by (intro nth_in_slice) simp_all
    ultimately show ?thesis by simp
  qed
  from a int float
  show "tok_kind tok = FLOAT
      \<longleftrightarrow> 46 \<in> set (slice (src_body source) (tok_start tok) (tok_end tok))"
    by (auto simp: body_def start_def)
  assume "101 \<in> set (slice (src_body source) (tok_start tok) (tok_end tok))"
  with a int float show "46 \<in> set (slice (src_body source) (tok_start tok) (tok_end tok))"
    by (auto simp: body_def start_def)
next
  show "read_token \<lparr>src_body = codes ''1.5e-10''\<rparr> 0
      = Inr (Token FLOAT 0 7 (Some (codes ''1.5e-10'')))"
    by (simp add: read_token_def codes_def position_after_whitespace.simps char_code_at_def
        PUNCT_CODE_TO_KIND_def read_number_def slice_def read_digits.simps Token_def)
next
  show "read_token \<lparr>src_body = codes ''1e5''\<rparr> 0 = Inr (Token INT' 0 1 (Some (codes ''1'')))"
    by (simp add: read_token_def codes_def position_after_whitespace.simps char_code_at_def
        PUNCT_CODE_TO_KIND_def read_number_def slice_def read_digits.simps Token_def)
next
  show "read_token \<lparr>src_body = codes ''1e5''\<rparr> 1 = Inr (Token NAME 1 3 (Some (codes ''e5'')))"
    by (simp add: read_token_def codes_def position_after_whitespace.simps char_code_at_def
        PUNCT_CODE_TO_KIND_def read_name_def read_name_loop.simps slice_def Token_def)
qed

theorem number_token_kind_and_value_witness:
  "read_token \<lparr>src_body = codes ''-0.25''\<rparr> 0 = Inr (Token FLOAT 0 5 (Some (codes ''-0.25'')))
   \<and> Some (codes ''-0.25'') = Some (slice (codes ''-0.25'') 0 5)
   \<and> 46 \<in> set (slice (codes ''-0.25'') 0 5)"
proof -
  have h: "read_token \<lparr>src_body = codes ''-0.25''\<rparr> 0
      = Inr (Token FLOAT 0 5 (Some (codes ''-0.25'')))"
    by (simp add: read_token_def codes_def position_after_whitespace.simps char_code_at_def
        PUNCT_CODE_TO_KIND_def read_number_def slice_def read_digits.simps Token_def)
  then have "read_token \<lparr>src_body = codes ''-0.25''\<rparr> 0
      = Inr (Token FLOAT 0 5 (Some (codes ''-0.25'')))
      \<and> (tok_kind (Token FLOAT 0 5 (Some (codes ''-0.25''))) = INT'
          \<or> tok_kind (Token FLOAT 0 5 (Some (codes ''-0.25''))) = FLOAT)"
    by (simp add: Token_def)
  with number_token_kind_and_value
  have "tok_value (Token FLOAT 0 5 (Some (codes ''-0.25'')))
      = Some (slice (src_body \<lparr>src_body = codes ''-0.25''\<rparr>)
          (tok_start (Token FLOAT 0 5 (Some (codes ''-0.25''))))
          (tok_end (Token FLOAT 0 5 (Some (codes ''-0.25'')))))
    \<and> (tok_kind (Token FLOAT 0 5 (Some (codes ''-0.25''))) = FLOAT
       \<longleftrightarrow> 46 \<in> set (slice (src_body \<lparr>src_body = codes ''-0.25''\<rparr>)
          (tok_start (Token FLOAT 0 5 (Some (codes ''-0.25''))))
          (tok_end (Token FLOAT 0 5 (Some (codes ''-0.25''))))))"
    by blast
  with h show ?thesis
    by (simp add: Token_def codes_def slice_def)
qed

subsection \<open>Dots\<close>

text \<open>
  Claim C5 says that lexing \<^verbatim>\<open>..\<close> from offset 0 fails as an unexpected character at
  offset 1. The error of \<^verbatim>\<open>read_token\<close> carries \<^verbatim>\<open>position\<close>, the offset of the first dot:
  offset 0.
\<close>

theorem lex_two_dots_counterexample:
  "read_token \<lparr>src_body = codes ''..''\<rparr> 0
     = Inl (LanguageError \<lparr>src_body = codes ''..''\<rparr> 0 (Unexpected_character 46))
   \<and> read_token \<lparr>src_body = codes ''..''\<rparr> 0
     \<noteq> Inl (LanguageError \<lparr>src_body = codes ''..''\<rparr> 1 (Unexpected_character 46))"
  by (simp add: read_token_def codes_def position_after_whitespace.simps char_code_at_def
      PUNCT_CODE_TO_KIND_def)

text \<open>
  Claim C5, amended: where the next significant character is a \<^verbatim>\<open>.\<close>, three consecutive
  \<^verbatim>\<open>.\<close> characters yield one SPREAD token spanning exactly those three characters, and
  any other dot sequence is a lexical error (unexpected character \<^verbatim>\<open>.\<close>) raised at the
  offset of that first dot; in particular lexing \<^verbatim>\<open>...\<close> yields SPREAD over \<open>[0,3)\<close> and
  lexing \<^verbatim>\<open>..\<close> from offset 0 fails as an unexpected-character error at offset 0.
\<close>

theorem spread_or_unexpected_character:
  "(\<forall>source from_position.
      char_code_at (src_body source)
        (position_after_whitespace (src_body source) from_position) = 46
      \<longrightarrow> read_token source from_position =
        (let body = src_body source;
             position = position_after_whitespace body from_position
         in if char_code_at body (position + 1) = 46 \<and> char_code_at body (position + 2) = 46
            then Inr (Token SPREAD position (position + 3) None)
            else Inl (LanguageError source position (Unexpected_character 46))))
   \<and> read_token \<lparr>src_body = codes ''...''\<rparr> 0 = Inr (Token SPREAD 0 3 None)
   \<and> read_token \<lparr>src_body = codes ''..''\<rparr> 0
       = Inl (LanguageError \<lparr>src_body = codes ''..''\<rparr> 0 (Unexpected_character 46))"
proof (intro conjI allI impI)
  fix source :: Source and from_position :: nat
  define body where "body = src_body source"
  define position where "position = position_after_whitespace body from_position"
  assume "char_code_at (src_body source)
      (position_after_whitespace (src_body source) from_position) = 46"
  then have dot: "char_code_at body position = 46"
    by (simp add: body_def position_def)
  then have lt: "position < length body"
    by (auto intro: eq_pos)
  with dot have nth: "body ! position = 46"
    by (simp add: code_nth)
  have punct: "PUNCT_CODE_TO_KIND 46 = None"
    by (simp add: PUNCT_CODE_TO_KIND_def)
  from dot lt nth punct
  show "read_token source from_position =
      (let body = src_body source;
           position = position_after_whitespace body from_position
       in if char_code_at body (position + 1) = 46 \<and> char_code_at body (position + 2) = 46
          then Inr (Token SPREAD position (position + 3) None)
          else Inl (LanguageError source position (Unexpected_character 46)))"
    unfolding read_token_def Let_def body_def [symmetric] position_def [symmetric]
    by simp
next
  show "read_token \<lparr>src_body = codes ''...''\<rparr> 0 = Inr (Token SPREAD 0 3 None)"
    by (simp add: read_token_def codes_def position_after_whitespace.simps char_code_at_def
        PUNCT_CODE_TO_KIND_def Token_def)
next
  show "read_token \<lparr>src_body = codes ''..''\<rparr> 0
      = Inl (LanguageError \<lparr>src_body = codes ''..''\<rparr> 0 (Unexpected_character 46))"
    by (simp add: read_token_def codes_def position_after_whitespace.simps char_code_at_def
        PUNCT_CODE_TO_KIND_def)
qed

theorem spread_or_unexpected_character_witness:
  "char_code_at (codes ''  .. .'') (position_after_whitespace (codes ''  .. .'') 0) = 46
   \<and> read_token \<lparr>src_body = codes ''  .. .''\<rparr> 0
       = Inl (LanguageError \<lparr>src_body = codes ''  .. .''\<rparr> 2 (Unexpected_character 46))"
proof -
  have p: "position_after_whitespace (codes ''  .. .'') 0 = 2"
    by (simp add: codes_def position_after_whitespace.simps char_code_at_def)
  then have h: "char_code_at (src_body \<lparr>src_body = codes ''  .. .''\<rparr>)
      (position_after_whitespace (src_body \<lparr>src_body = codes ''  .. .''\<rparr>) 0) = 46"
    by (simp add: codes_def char_code_at_def)
  with spread_or_unexpected_character
  have "read_token \<lparr>src_body = codes ''  .. .''\<rparr> 0 =
      (let body = src_body \<lparr>src_body = codes ''  .. .''\<rparr>;
           position = position_after_whitespace body 0
       in if char_code_at body (position + 1) = 46 \<and> char_code_at body (position + 2) = 46
          then Inr (Token SPREAD position (position + 3) None)
          else Inl (LanguageError \<lparr>src_body = codes ''  .. .''\<rparr> position
                 (Unexpected_character 46)))"
    by blast
  with p h show ?thesis
    by (simp add: codes_def char_code_at_def)
qed

subsection \<open>Strings\<close>

text \<open>
  Claim C6, at the three characters \<^verbatim>\<open>"\"\<close> (a quote, a backslash, a quote): the string is
  not terminated, its second quote being escaped, yet \<^verbatim>\<open>read_string\<close> returns a STRING
  token, over \<open>[0,4)\<close> in a body of length 3. The escape branch leaves the escaped
  character (34) in \<^verbatim>\<open>code\<close>, the loop ends at the end of the body without reading a new
  \<^verbatim>\<open>code\<close>, and the test \<^verbatim>\<open>code != 34\<close> after the loop takes the escaped quote for the
  closing one.
\<close>

theorem read_string_escaped_quote_at_end:
  "read_token \<lparr>src_body = [34, 92, 34]\<rparr> 0 = Inr (Token STRING 0 4 (Some [34]))
   \<and> length (src_body \<lparr>src_body = [34, 92, 34]\<rparr>) = 3"
  by (simp add: read_token_def position_after_whitespace.simps char_code_at_def
      PUNCT_CODE_TO_KIND_def read_string_def read_string_loop.simps ESCAPED_CHAR_CODES_def
      slice_def Token_def)

subsection \<open>Runs of \<open>next_token\<close>\<close>

lemma next_token_Inr:
  assumes "next_token lexer None = Inr (token, lexer')"
  shows "read_token (lex_source lexer) (prev_position lexer) = Inr token"
    and "lexer' = lexer\<lparr>prev_position := tok_end token\<rparr>"
  using assms by (auto simp: next_token_def split: sum.splits)

lemma tokens_from_run:
  "tokens_from lexer = Inr toks \<Longrightarrow>
     toks \<noteq> [] \<and> tok_kind (last toks) = EOF \<and> tok_start (last toks) = tok_end (last toks)
     \<and> length (src_body (lex_source lexer)) \<le> tok_start (last toks)
     \<and> list_all (\<lambda>t. tok_kind t \<noteq> EOF \<and> tok_start t < tok_end t) (butlast toks)
     \<and> chained (src_body (lex_source lexer)) (prev_position lexer) toks"
proof (induction lexer arbitrary: toks rule: tokens_from.induct)
  case (1 lexer)
  from "1.prems" obtain token lexer' where nt: "next_token lexer None = Inr (token, lexer')"
    by (subst (asm) tokens_from.simps) (auto split: sum.splits)
  note rt = next_token_Inr [OF nt]
  show ?case
  proof (cases "tok_kind token = EOF")
    case True
    with "1.prems" nt have "toks = [token]"
      by (subst (asm) tokens_from.simps) simp
    with True read_token_EOF [OF rt(1) True] read_token_start [OF rt(1)] show ?thesis
      by simp
  next
    case False
    with "1.prems" nt obtain rest where rest: "tokens_from lexer' = Inr rest"
      and toks: "toks = token # rest"
      by (subst (asm) tokens_from.simps) (auto split: sum.splits)
    from "1.IH" [OF nt refl False rest] rt(2)
    have IH: "rest \<noteq> []" "tok_kind (last rest) = EOF" "tok_start (last rest) = tok_end (last rest)"
      "length (src_body (lex_source lexer)) \<le> tok_start (last rest)"
      "list_all (\<lambda>t. tok_kind t \<noteq> EOF \<and> tok_start t < tok_end t) (butlast rest)"
      "chained (src_body (lex_source lexer)) (tok_end token) rest"
      by simp_all
    from read_token_progress [OF rt(1) False] have "tok_start token < tok_end token"
      by simp
    with IH False read_token_start [OF rt(1)] show ?thesis
      by (simp add: toks)
  qed
qed

text \<open>
  Claim C7: a call of \<^verbatim>\<open>next_token\<close> with no position that returns a token sets
  \<open>prev_position\<close> to the end of that token, which starts at or after the old
  \<open>prev_position\<close>, and a token other than EOF ends strictly after its start; so, on every
  source on which no lexical error occurs, the calls from offset 0 end (\<open>tokens_from\<close> is
  total) with exactly one EOF token, the last one, whose start equals its end and lies at
  or after the end of the body, all tokens before it being non-empty and each starting
  right after the ignored characters that follow its predecessor.
\<close>

theorem next_token_resumable:
  "(\<forall>lexer token lexer'. next_token lexer None = Inr (token, lexer') \<longrightarrow>
      prev_position lexer' = tok_end token \<and> lex_source lexer' = lex_source lexer
      \<and> prev_position lexer \<le> tok_start token
      \<and> (tok_kind token \<noteq> EOF \<longrightarrow> tok_start token < tok_end token))
   \<and> (\<forall>source toks. tokens_from (Lexer source) = Inr toks \<longrightarrow>
      toks \<noteq> [] \<and> tok_kind (last toks) = EOF \<and> tok_start (last toks) = tok_end (last toks)
      \<and> length (src_body source) \<le> tok_start (last toks)
      \<and> list_all (\<lambda>t. tok_kind t \<noteq> EOF \<and> tok_start t < tok_end t) (butlast toks)
      \<and> chained (src_body source) 0 toks)"
proof (intro conjI allI impI)
  fix lexer token lexer'
  assume nt: "next_token lexer None = Inr (token, lexer')"
  note rt = next_token_Inr [OF nt]
  from rt(2) show "prev_position lexer' = tok_end token" and "lex_source lexer' = lex_source lexer"
    by simp_all
  from read_token_start [OF rt(1)] show "prev_position lexer \<le> tok_start token"
    by (simp add: position_after_whitespace_ge)
  assume "tok_kind token \<noteq> EOF"
  with read_token_progress [OF rt(1)] show "tok_start token < tok_end token"
    by simp
next
  fix source toks
  assume "tokens_from (Lexer source) = Inr toks"
  from tokens_from_run [OF this]
  show "toks \<noteq> []" and "tok_kind (last toks) = EOF" and "tok_start (last toks) = tok_end (last toks)"
    and "length (src_body source) \<le> tok_start (last toks)"
    and "list_all (\<lambda>t. tok_kind t \<noteq> EOF \<and> tok_start t < tok_end t) (butlast toks)"
    and "chained (src_body source) 0 toks"
    by (simp_all add: Lexer_def)
qed

theorem next_token_resumable_witness:
  "tokens_from (Lexer \<lparr>src_body = codes ''{a 1}''\<rparr>)
     = Inr [Token BRACE_L 0 1 None, Token NAME 1 2 (Some (codes ''a'')),
         Token INT' 3 4 (Some (codes ''1'')), Token BRACE_R 4 5 None, Token EOF 5 5 None]
   \<and> tok_kind (last [Token BRACE_L 0 1 None, Token NAME 1 2 (Some (codes ''a'')),
         Token INT' 3 4 (Some (codes ''1'')), Token BRACE_R 4 5 None, Token EOF 5 5 None]) = EOF
   \<and> chained (codes ''{a 1}'') 0
        [Token BRACE_L 0 1 None, Token NAME 1 2 (Some (codes ''a'')),
         Token INT' 3 4 (Some (codes ''1'')), Token BRACE_R 4 5 None, Token EOF 5 5 None]"
proof -
  have h: "tokens_from (Lexer \<lparr>src_body = codes ''{a 1}''\<rparr>)
     = Inr [Token BRACE_L 0 1 None, Token NAME 1 2 (Some (codes ''a'')),
         Token INT' 3 4 (Some (codes ''1'')), Token BRACE_R 4 5 None, Token EOF 5 5 None]"
    by (simp add: tokens_from.simps next_token_def Lexer_def read_token_def codes_def
        position_after_whitespace.simps char_code_at_def PUNCT_CODE_TO_KIND_def
        read_number_def slice_def read_digits.simps Token_def read_name_def
        read_name_loop.simps)
  with next_token_resumable
  have "tok_kind (last [Token BRACE_L 0 1 None, Token NAME 1 2 (Some (codes ''a'')),
         Token INT' 3 4 (Some (codes ''1'')), Token BRACE_R 4 5 None, Token EOF 5 5 None]) = EOF
   \<and> chained (src_body \<lparr>src_body = codes ''{a 1}''\<rparr>) 0
        [Token BRACE_L 0 1 None, Token NAME 1 2 (Some (codes ''a'')),
         Token INT' 3 4 (Some (codes ''1'')), Token BRACE_R 4 5 None, Token EOF 5 5 None]"
    by blast
  with h show ?thesis
    by simp
qed

section \<open>Properties of validation\<close>

subsection \<open>The fragment cache of the context\<close>

lemma scan_definitions_last:
  "scan_definitions statements fragments name =
     (case filter (\<lambda>statement. node_class statement = FragmentDefinition
                      \<and> name_value statement = name) statements of
        [] \<Rightarrow> fragments name
      | ds \<Rightarrow> Some (last ds))"
  unfolding scan_definitions_def
  by (induction statements arbitrary: fragments) (auto split: list.splits)

lemma get_fragment_cached:
  "ctx_fragments self = Some fragments \<Longrightarrow> get_fragment self name = (fragments name, self)"
  by (simp add: get_fragment_def)

lemma get_fragments_cached:
  "ctx_fragments self = Some fragments \<Longrightarrow>
     get_fragments self names = (map fragments names, self)"
  by (induction names) (simp_all add: get_fragment_cached)

lemma cyclic_document_children:
  "children cyclic_document = [(Index 0, query_A), (Index 1, fragment_A)]"
  by (simp add: cyclic_document_def document_of_def upt_rec)

lemma document_of_three_children:
  "children (document_of [a, b, c]) = [(Index 0, a), (Index 1, b), (Index 2, c)]"
  by (simp add: document_of_def upt_rec)

text \<open>
  Claim C8: on a new context, calls of \<^verbatim>\<open>get_fragment\<close> for any names, one after the other,
  scan the definitions of the document exactly once (the counter of scans ends at 1) and
  all answer from the one dictionary built by that scan, so two calls with the same name
  return the same definition; and a call on a context whose cache is built returns the
  cached entry and leaves the context, cache and counter included, as it was.
\<close>

theorem get_fragment_memoized:
  "(\<forall>schema ast names. names \<noteq> [] \<longrightarrow>
      get_fragments (ValidationContext schema ast) names
        = (map (scan_definitions (definitions ast) Map.empty) names,
           \<lparr>ctx_schema = schema, ctx_ast = ast,
            ctx_fragments = Some (scan_definitions (definitions ast) Map.empty),
            ctx_scans = 1\<rparr>))
   \<and> (\<forall>self fragments name. ctx_fragments self = Some fragments \<longrightarrow>
        get_fragment self name = (fragments name, self))"
proof (intro conjI allI impI)
  fix schema ast and names :: "string list"
  assume "names \<noteq> []"
  then obtain name rest where names: "names = name # rest"
    by (cases names) auto
  define built where "built = scan_definitions (definitions ast) Map.empty"
  define self where "self = \<lparr>ctx_schema = schema, ctx_ast = ast,
      ctx_fragments = Some built, ctx_scans = 1\<rparr>"
  have first: "get_fragment (ValidationContext schema ast) name = (built name, self)"
    by (simp add: get_fragment_def ValidationContext_def get_ast_def built_def self_def Let_def)
  have "ctx_fragments self = Some built"
    by (simp add: self_def)
  then have "get_fragments self rest = (map built rest, self)"
    by (rule get_fragments_cached)
  with first show "get_fragments (ValidationContext schema ast) names
      = (map (scan_definitions (definitions ast) Map.empty) names,
         \<lparr>ctx_schema = schema, ctx_ast = ast,
          ctx_fragments = Some (scan_definitions (definitions ast) Map.empty),
          ctx_scans = 1\<rparr>)"
    by (simp add: names built_def self_def)
next
  fix self :: ValidationContext and fragments name
  assume "ctx_fragments self = Some fragments"
  then show "get_fragment self name = (fragments name, self)"
    by (rule get_fragment_cached)
qed

theorem get_fragment_memoized_witness:
  "fst (get_fragments (ValidationContext (GraphQLSchema []) cyclic_document) [''A'', ''B'', ''A''])
     = [Some fragment_A, None, Some fragment_A]
   \<and> ctx_scans (snd (get_fragments (ValidationContext (GraphQLSchema []) cyclic_document)
        [''A'', ''B'', ''A''])) = 1"
proof -
  have "[''A'', ''B'', ''A''] \<noteq> []"
    by simp
  with get_fragment_memoized
  have "get_fragments (ValidationContext (GraphQLSchema []) cyclic_document) [''A'', ''B'', ''A'']
      = (map (scan_definitions (definitions cyclic_document) Map.empty) [''A'', ''B'', ''A''],
         \<lparr>ctx_schema = GraphQLSchema [], ctx_ast = cyclic_document,
          ctx_fragments = Some (scan_definitions (definitions cyclic_document) Map.empty),
          ctx_scans = 1\<rparr>)"
    by blast
  then show ?thesis
    by (simp add: scan_definitions_def definitions_def cyclic_document_children query_A_def
        fragment_A_def)
qed

text \<open>
  Claim C10: on a context of a run (new, or with the cache built, which \<^verbatim>\<open>get_fragment\<close>
  keeps so), \<^verbatim>\<open>get_fragment(name)\<close> returns \<^verbatim>\<open>None\<close> when no top-level definition of the
  document is a FragmentDefinition with that name, and otherwise the last such definition
  in document order.
\<close>

theorem get_fragment_last_definition:
  "cached (ValidationContext schema ast)
   \<and> (cached self \<longrightarrow>
        cached (snd (get_fragment self name))
        \<and> fst (get_fragment self name)
          = (case filter (\<lambda>statement. node_class statement = FragmentDefinition
                            \<and> name_value statement = name) (definitions (get_ast self)) of
               [] \<Rightarrow> None
             | ds \<Rightarrow> Some (last ds)))"
  by (auto simp: cached_def ValidationContext_def get_fragment_def get_ast_def Let_def
      scan_definitions_last)

theorem get_fragment_last_definition_witness:
  "cached (ValidationContext (GraphQLSchema []) (document_of [fragment_A, query_A, fragment_A']))
   \<and> fst (get_fragment
        (ValidationContext (GraphQLSchema []) (document_of [fragment_A, query_A, fragment_A']))
        ''A'') = Some fragment_A'
   \<and> fst (get_fragment
        (ValidationContext (GraphQLSchema []) (document_of [fragment_A, query_A, fragment_A']))
        ''B'') = None"
proof -
  let ?ctx = "ValidationContext (GraphQLSchema [])
      (document_of [fragment_A, query_A, fragment_A'])"
  have c: "cached ?ctx"
    by (simp add: cached_def ValidationContext_def)
  have d: "definitions (get_ast ?ctx) = [fragment_A, query_A, fragment_A']"
    by (simp add: definitions_def get_ast_def ValidationContext_def document_of_three_children)
  from c get_fragment_last_definition [where self = ?ctx and name = "''A''"]
  have "fst (get_fragment ?ctx ''A'')
      = (case filter (\<lambda>statement. node_class statement = FragmentDefinition
                        \<and> name_value statement = ''A'') (definitions (get_ast ?ctx)) of
           [] \<Rightarrow> None
         | ds \<Rightarrow> Some (last ds))"
    by blast
  then have a: "fst (get_fragment ?ctx ''A'') = Some fragment_A'"
    by (simp add: d) (simp add: fragment_A_def query_A_def fragment_A'_def)
  from c get_fragment_last_definition [where self = ?ctx and name = "''B''"]
  have "fst (get_fragment ?ctx ''B'')
      = (case filter (\<lambda>statement. node_class statement = FragmentDefinition
                        \<and> name_value statement = ''B'') (definitions (get_ast ?ctx)) of
           [] \<Rightarrow> None
         | ds \<Rightarrow> Some (last ds))"
    by blast
  then have b: "fst (get_fragment ?ctx ''B'') = None"
    by (simp add: d) (simp add: fragment_A_def query_A_def fragment_A'_def)
  from c a b show ?thesis
    by simp
qed

subsection \<open>The preconditions of \<open>validate\<close>\<close>

text \<open>
  Claim C9: \<^verbatim>\<open>validate(schema, ast, rules)\<close> called with no schema, with an object that is
  not a \<^verbatim>\<open>GraphQLSchema\<close>, or with no document raises \<^verbatim>\<open>AssertionError\<close>, whatever the rules
  and before any traversal (with any fuel, even none): it returns no sequence of errors.
\<close>

theorem validate_preconditions:
  "(schema = No_schema \<or> (\<exists>b. schema = Other_object b) \<or> ast = None) \<longrightarrow>
     (\<exists>message. validate specified_rules fuel schema ast rules
        = Some (Inl (AssertionError message)))"
  by (auto simp: validate_def split: schema_argument.splits)

theorem validate_preconditions_witness:
  "\<exists>message. validate [inlining_rule] 0 (Other_object True) (Some cyclic_document) None
     = Some (Inl (AssertionError message))"
proof -
  have "Other_object True = No_schema \<or> (\<exists>b. Other_object True = Other_object b)
      \<or> Some cyclic_document = None"
    by blast
  with validate_preconditions [where schema = "Other_object True"
      and ast = "Some cyclic_document" and specified_rules = "[inlining_rule]" and fuel = 0
      and rules = None]
  show ?thesis
    by blast
qed

subsection \<open>The balance of TypeInfo\<close>

text \<open>
  Claim C2, where the node is a FragmentDefinition, the key is present (and not 0) and
  the rule has \<^verbatim>\<open>visit_spread_fragments\<close>: \<^verbatim>\<open>enter\<close> has pushed the node on TypeInfo and
  returns \<^verbatim>\<open>False\<close> at once, from the \<^verbatim>\<open>return False\<close> that stands before the
  \<^verbatim>\<open>self.type_info.leave(node)\<close> of the other "do not descend" results. The context of
  the node stays on the stack, and the traversal calls no \<^verbatim>\<open>leave\<close> for a node whose
  \<^verbatim>\<open>enter\<close> returned \<^verbatim>\<open>False\<close>. So it is for the fragment \<^verbatim>\<open>A\<close>, the second definition
  of the cyclic document, entered under the key 1.
\<close>

theorem enter_fragment_definition_unbalanced:
  "(node_class node = FragmentDefinition \<and> truthy_key key \<and> vis_visit_spread_fragments self
     \<longrightarrow> enter v self node key parent path ancestors
         = Some (PyFalse, self\<lparr>vis_type_info := node # vis_type_info self\<rparr>))
   \<and> enter v
       (ValidationVisitor (careful_rule (ValidationContext schema cyclic_document))
          [cyclic_document] [])
       fragment_A (Some (Index 1)) (Some cyclic_document) [Index 1] []
     = Some (PyFalse,
         ValidationVisitor (careful_rule (ValidationContext schema cyclic_document))
           [fragment_A, cyclic_document] [])"
  by (simp add: enter_def ValidationVisitor_def careful_rule_def TypeInfo_enter_def
      fragment_A_def)

theorem enter_fragment_definition_unbalanced_witness:
  "node_class fragment_A = FragmentDefinition
   \<and> truthy_key (Some (Index 1))
   \<and> vis_type_info (snd (the (enter (visit 0)
        (ValidationVisitor (inlining_rule (ValidationContext (GraphQLSchema []) cyclic_document))
           [cyclic_document] [])
        fragment_A (Some (Index 1)) (Some cyclic_document) [Index 1] [])))
     = [fragment_A, cyclic_document]"
proof -
  have h: "node_class fragment_A = FragmentDefinition \<and> truthy_key (Some (Index 1))
      \<and> vis_visit_spread_fragments
        (ValidationVisitor (inlining_rule (ValidationContext (GraphQLSchema []) cyclic_document))
           [cyclic_document] [])"
    by (simp add: fragment_A_def ValidationVisitor_def inlining_rule_def)
  with enter_fragment_definition_unbalanced
    [where node = fragment_A and key = "Some (Index 1)"
      and self = "ValidationVisitor
        (inlining_rule (ValidationContext (GraphQLSchema []) cyclic_document))
        [cyclic_document] []"
      and v = "visit 0" and parent = "Some cyclic_document" and path = "[Index 1]"
      and ancestors = "[]"]
  have "enter (visit 0)
      (ValidationVisitor (inlining_rule (ValidationContext (GraphQLSchema []) cyclic_document))
         [cyclic_document] [])
      fragment_A (Some (Index 1)) (Some cyclic_document) [Index 1] []
    = Some (PyFalse,
        (ValidationVisitor (inlining_rule (ValidationContext (GraphQLSchema []) cyclic_document))
           [cyclic_document] [])
        \<lparr>vis_type_info := fragment_A # vis_type_info
          (ValidationVisitor
            (inlining_rule (ValidationContext (GraphQLSchema []) cyclic_document))
            [cyclic_document] [])\<rparr>)"
    by blast
  with h show ?thesis
    by (simp add: ValidationVisitor_def)
qed

subsection \<open>Termination of \<open>validate\<close>\<close>

lemma child_size: "(k, c) \<in> set cs \<Longrightarrow> size c < size (Node cl n cs)"
  by (induction cs) auto

lemma enter_without_inlining:
  "\<not> vis_visit_spread_fragments self \<Longrightarrow>
     \<exists>result self'. enter v self node key parent path ancestors = Some (result, self')
       \<and> \<not> vis_visit_spread_fragments self'"
  by (simp add: enter_def Let_def split: prod.splits)

lemma leave_inlining:
  "vis_visit_spread_fragments (snd (leave self node key parent path ancestors))
     = vis_visit_spread_fragments self"
  by (simp add: leave_def Let_def split: prod.splits)

lemma visit_children_terminates:
  fixes self :: "'a ValidationVisitor"
  assumes nodes: "\<And>child key parent path ancestors (self :: 'a ValidationVisitor).
      (\<exists>k. (k, child) \<in> set cs) \<Longrightarrow> \<not> vis_visit_spread_fragments self \<Longrightarrow>
        \<exists>self'. visit_node fuel child key parent path ancestors self = Some self'
          \<and> \<not> vis_visit_spread_fragments self'"
    and "\<not> vis_visit_spread_fragments self"
  shows "\<exists>self'. visit_children fuel node cs path ancestors self = Some self'
    \<and> \<not> vis_visit_spread_fragments self'"
  using assms
proof (induction cs arbitrary: self)
  case Nil
  then show ?case by simp
next
  case (Cons kc cs)
  obtain k c where kc: "kc = (k, c)"
    by (cases kc)
  have "\<exists>self'. visit_node fuel c (Some k) (Some node) (path @ [k]) ancestors self = Some self'
      \<and> \<not> vis_visit_spread_fragments self'"
  proof (rule Cons.prems(1))
    show "\<exists>k'. (k', c) \<in> set (kc # cs)"
      by (auto simp: kc)
  qed (rule Cons.prems(2))
  then obtain self1 where self1: "visit_node fuel c (Some k) (Some node) (path @ [k]) ancestors self
      = Some self1" "\<not> vis_visit_spread_fragments self1"
    by blast
  have "\<exists>self'. visit_children fuel node cs path ancestors self1 = Some self'
      \<and> \<not> vis_visit_spread_fragments self'"
  proof (rule Cons.IH)
    fix child key parent path ancestors and self :: "'a ValidationVisitor"
    assume child: "\<exists>k. (k, child) \<in> set cs" and inl: "\<not> vis_visit_spread_fragments self"
    show "\<exists>self'. visit_node fuel child key parent path ancestors self = Some self'
        \<and> \<not> vis_visit_spread_fragments self'"
    proof (rule Cons.prems(1))
      from child show "\<exists>k. (k, child) \<in> set (kc # cs)"
        by auto
    qed (rule inl)
  qed (rule self1(2))
  with self1 show ?case
    by (simp add: kc)
qed

lemma visit_node_terminates:
  "\<not> vis_visit_spread_fragments self \<Longrightarrow> size node < fuel \<Longrightarrow>
     \<exists>self'. visit_node fuel node key parent path ancestors self = Some self'
       \<and> \<not> vis_visit_spread_fragments self'"
proof (induction fuel arbitrary: node key parent path ancestors self)
  case 0
  then show ?case by simp
next
  case (Suc fuel)
  from enter_without_inlining [OF Suc.prems(1)]
  obtain result self1
    where self1: "enter (\<lambda>fragment visitor. visit_node fuel fragment None None [] [] visitor)
        self node key parent path ancestors = Some (result, self1)"
      "\<not> vis_visit_spread_fragments self1"
    by blast
  show ?case
  proof (cases "result = PyNone")
    case False
    with self1 show ?thesis by simp
  next
    case True
    have "\<exists>self'. visit_children fuel node (children node) path
        (ancestors @ (case parent of None \<Rightarrow> [] | Some p \<Rightarrow> [p])) self1 = Some self'
      \<and> \<not> vis_visit_spread_fragments self'"
    proof (rule visit_children_terminates)
      fix child key parent path ancestors and self :: "'a ValidationVisitor"
      assume "\<exists>k. (k, child) \<in> set (children node)" and inl: "\<not> vis_visit_spread_fragments self"
      then obtain k where "(k, child) \<in> set (children node)"
        by blast
      then have "size child < size node"
        using child_size [of k child "children node" "node_class node" "name_value node"]
        by simp
      with Suc.prems(2) have "size child < fuel"
        by simp
      with inl show "\<exists>self'. visit_node fuel child key parent path ancestors self = Some self'
          \<and> \<not> vis_visit_spread_fragments self'"
        by (rule Suc.IH)
    qed (rule self1(2))
    then obtain self2 where "visit_children fuel node (children node) path
        (ancestors @ (case parent of None \<Rightarrow> [] | Some p \<Rightarrow> [p])) self1 = Some self2"
      "\<not> vis_visit_spread_fragments self2"
      by blast
    with self1 True show ?thesis
      by (simp add: leave_inlining)
  qed
qed

lemma visit_rules_terminates:
  assumes "\<forall>rule \<in> set rules. \<forall>context. rule_visit_spread_fragments (rule context) \<noteq> Some True"
    and "size ast < fuel"
  shows "\<exists>r. visit_rules fuel ast rules type_info ctx errors = Some r"
  using assms(1)
proof (induction rules arbitrary: type_info ctx errors)
  case Nil
  then show ?case by simp
next
  case (Cons rule rules)
  from Cons.prems have "rule_visit_spread_fragments (rule ctx) \<noteq> Some True"
    by simp
  then have "\<not> vis_visit_spread_fragments (ValidationVisitor (rule ctx) type_info errors)"
    by (cases "rule_visit_spread_fragments (rule ctx)") (simp_all add: ValidationVisitor_def)
  from visit_node_terminates [OF this assms(2)]
  obtain visitor where "visit fuel ast (ValidationVisitor (rule ctx) type_info errors)
      = Some visitor"
    unfolding visit_def by blast
  moreover from Cons.prems
  have "\<exists>r. visit_rules fuel ast rules (vis_type_info visitor)
      (rule_context (vis_instance visitor)) (vis_errors visitor) = Some r"
    by (intro Cons.IH) simp
  ultimately show ?case
    by (simp add: Let_def)
qed

lemma scan_cyclic_document:
  "scan_definitions (definitions cyclic_document) Map.empty ''A'' = Some fragment_A"
  by (simp add: scan_definitions_def definitions_def cyclic_document_children query_A_def
      fragment_A_def)

lemma get_fragment_cyclic_document:
  assumes "cached context" and "ctx_ast context = cyclic_document"
  shows "fst (get_fragment context ''A'') = Some fragment_A"
    and "cached (snd (get_fragment context ''A''))"
    and "ctx_ast (snd (get_fragment context ''A'')) = cyclic_document"
  using assms scan_cyclic_document
  by (auto simp: cached_def get_fragment_def get_ast_def Let_def)

lemma enter_continues:
  assumes "continues_and_inlines self" and "node_class node \<noteq> FragmentSpread"
    and "\<not> (node_class node = FragmentDefinition \<and> truthy_key key)"
  shows "\<exists>self'. enter v self node key parent path ancestors = Some (PyNone, self')
    \<and> continues_and_inlines self'"
  using assms
  by (auto simp: continues_and_inlines_def enter_def Let_def continue_hook_def)

lemma enter_spread_A:
  assumes "continues_and_inlines self"
  shows "\<exists>self'. continues_and_inlines self'
    \<and> enter v self spread_A key parent path ancestors
      = (case v fragment_A self' of None \<Rightarrow> None | Some s \<Rightarrow> Some (PyNone, s))"
proof -
  define ctx where "ctx = rule_context (vis_instance self)"
  from assms have c: "cached ctx" "ctx_ast ctx = cyclic_document"
    by (simp_all add: continues_and_inlines_def ctx_def)
  note gf = get_fragment_cyclic_document [OF c]
  obtain fragment ctx' where eq: "get_fragment ctx ''A'' = (fragment, ctx')"
    by (cases "get_fragment ctx ''A''")
  with gf have f: "fragment = Some fragment_A" and c': "cached ctx'"
    "ctx_ast ctx' = cyclic_document"
    by simp_all
  define self' where "self' = self\<lparr>
      vis_type_info := TypeInfo_enter (vis_type_info self) spread_A,
      vis_instance := (vis_instance self)\<lparr>rule_attrs := (), rule_context := ctx'\<rparr>\<rparr>"
  from assms c' have "continues_and_inlines self'"
    by (simp add: continues_and_inlines_def self'_def)
  moreover from assms eq f have "enter v self spread_A key parent path ancestors
      = (case v fragment_A self' of None \<Rightarrow> None | Some s \<Rightarrow> Some (PyNone, s))"
    by (simp add: continues_and_inlines_def enter_def Let_def continue_hook_def spread_A_def
        ctx_def self'_def split: option.splits)
  ultimately show ?thesis
    by blast
qed

lemma cycle_never_returns:
  "continues_and_inlines self \<Longrightarrow>
     visit_node fuel fragment_A None parent path ancestors self = None
     \<and> visit_node fuel selection_A key parent path ancestors self = None
     \<and> visit_node fuel spread_A key parent path ancestors self = None"
proof (induction fuel arbitrary: self key parent path ancestors)
  case 0
  then show ?case by simp
next
  case (Suc fuel)
  let ?visit = "\<lambda>fragment visitor. visit_node fuel fragment None None [] [] visitor"
  have fragment: "visit_node (Suc fuel) fragment_A None parent path ancestors self = None"
  proof -
    from enter_continues [OF Suc.prems, of fragment_A None ?visit parent path ancestors]
    obtain self1 where "enter ?visit self fragment_A None parent path ancestors
        = Some (PyNone, self1)" and "continues_and_inlines self1"
      by (auto simp: fragment_A_def)
    moreover from this(2) have "visit_node fuel selection_A (Some (Attr ''selection_set''))
        (Some fragment_A) (path @ [Attr ''selection_set''])
        (ancestors @ (case parent of None \<Rightarrow> [] | Some p \<Rightarrow> [p])) self1 = None"
      using Suc.IH by blast
    ultimately show ?thesis
      by (simp add: fragment_A_def [symmetric]) (simp add: fragment_A_def)
  qed
  have selection: "visit_node (Suc fuel) selection_A key parent path ancestors self = None"
  proof -
    from enter_continues [OF Suc.prems, of selection_A key ?visit parent path ancestors]
    obtain self1 where "enter ?visit self selection_A key parent path ancestors
        = Some (PyNone, self1)" and "continues_and_inlines self1"
      by (auto simp: selection_A_def)
    moreover from this(2) have "visit_node fuel spread_A (Some (Index 0))
        (Some selection_A) (path @ [Index 0])
        (ancestors @ (case parent of None \<Rightarrow> [] | Some p \<Rightarrow> [p])) self1 = None"
      using Suc.IH by blast
    ultimately show ?thesis
      by (simp add: selection_A_def [symmetric]) (simp add: selection_A_def)
  qed
  have spread: "visit_node (Suc fuel) spread_A key parent path ancestors self = None"
  proof -
    from enter_spread_A [OF Suc.prems, of ?visit key parent path ancestors]
    obtain self1 where self1: "continues_and_inlines self1"
      and eq: "enter ?visit self spread_A key parent path ancestors
        = (case ?visit fragment_A self1 of None \<Rightarrow> None | Some s \<Rightarrow> Some (PyNone, s))"
      by blast
    from self1 have "visit_node fuel fragment_A None None [] [] self1 = None"
      using Suc.IH by blast
    with eq show ?thesis
      by simp
  qed
  from fragment selection spread show ?case
    by simp
qed

lemma query_never_returns:
  assumes "continues_and_inlines self"
  shows "visit_node fuel query_A key parent path ancestors self = None"
proof (cases fuel)
  case 0
  then show ?thesis by simp
next
  case (Suc n)
  let ?visit = "\<lambda>fragment visitor. visit_node n fragment None None [] [] visitor"
  from enter_continues [OF assms, of query_A key ?visit parent path ancestors]
  obtain self1 where "enter ?visit self query_A key parent path ancestors
      = Some (PyNone, self1)" and "continues_and_inlines self1"
    by (auto simp: query_A_def)
  moreover from this(2) have "visit_node n selection_A (Some (Attr ''selection_set''))
      (Some query_A) (path @ [Attr ''selection_set''])
      (ancestors @ (case parent of None \<Rightarrow> [] | Some p \<Rightarrow> [p])) self1 = None"
    using cycle_never_returns by blast
  ultimately show ?thesis
    by (simp add: Suc query_A_def [symmetric]) (simp add: query_A_def)
qed

lemma cyclic_document_never_returns:
  assumes "continues_and_inlines self"
  shows "visit fuel cyclic_document self = None"
proof (cases fuel)
  case 0
  then show ?thesis by (simp add: visit_def)
next
  case (Suc n)
  let ?visit = "\<lambda>fragment visitor. visit_node n fragment None None [] [] visitor"
  from enter_continues [OF assms, of cyclic_document None ?visit None "[]" "[]"]
  obtain self1 where "enter ?visit self cyclic_document None None [] []
      = Some (PyNone, self1)" and "continues_and_inlines self1"
    by (auto simp: cyclic_document_def document_of_def)
  moreover from this(2) have "visit_node n query_A (Some (Index 0))
      (Some cyclic_document) [Index 0] [] self1 = None"
    by (rule query_never_returns)
  ultimately show ?thesis
    by (simp add: Suc visit_def cyclic_document_children)
qed

lemma validate_cycle_never_returns:
  "validate specified_rules fuel (Schema schema) (Some cyclic_document) (Some [inlining_rule])
     = None"
proof -
  have "continues_and_inlines (ValidationVisitor
      (inlining_rule (ValidationContext schema cyclic_document)) (TypeInfo schema) [])"
    by (simp add: continues_and_inlines_def ValidationVisitor_def inlining_rule_def
        ValidationContext_def cached_def)
  then have "visit fuel cyclic_document (ValidationVisitor
      (inlining_rule (ValidationContext schema cyclic_document)) (TypeInfo schema) []) = None"
    by (rule cyclic_document_never_returns)
  then show ?thesis
    by (simp add: validate_def visit_using_rules_def Let_def)
qed

text \<open>
  Claim C1 says that \<^verbatim>\<open>validate\<close> terminates on a document with a fragment cycle for
  every rule set, rules that opt into spread-fragment inlining included. With
  \<open>inlining_rule\<close>, \<^verbatim>\<open>enter\<close> at the spread of \<^verbatim>\<open>A\<close> visits the fragment \<^verbatim>\<open>A\<close>, whose spread
  of \<^verbatim>\<open>A\<close> visits the fragment again, without end: no amount of fuel lets \<open>validate\<close> return.
\<close>

theorem validate_cycle_counterexample:
  "\<not> (\<exists>fuel result.
        validate [] fuel (Schema (GraphQLSchema [])) (Some cyclic_document)
          (Some [inlining_rule]) = Some result)"
  by (simp add: validate_cycle_never_returns)

text \<open>
  Claim C1, amended: for every document, a fragment that spreads itself or not,
  \<^verbatim>\<open>validate\<close> terminates for every rule set none of whose rules opts into
  spread-fragment inlining (fuel above the size of the document is enough, and the result
  is a sequence of errors); nothing in \<^verbatim>\<open>ValidationVisitor.enter\<close> bounds the recursive
  visit of a spread's fragment, and with a rule that opts in and continues at every node
  the validation of a document whose fragment spreads itself does not return.
\<close>

theorem validate_terminates_without_inlining:
  "((\<forall>rule \<in> set (case rules of None \<Rightarrow> specified_rules | Some rs \<Rightarrow> rs).
        \<forall>context. rule_visit_spread_fragments (rule context) \<noteq> Some True)
      \<and> size document < fuel
     \<longrightarrow> (\<exists>errors. validate specified_rules fuel (Schema schema) (Some document) rules
            = Some (Inr errors)))
   \<and> (\<forall>fuel specified.
        validate specified fuel (Schema schema) (Some cyclic_document) (Some [inlining_rule])
          = None)"
proof (intro conjI allI impI)
  assume a: "(\<forall>rule \<in> set (case rules of None \<Rightarrow> specified_rules | Some rs \<Rightarrow> rs).
        \<forall>context. rule_visit_spread_fragments (rule context) \<noteq> Some True)
      \<and> size document < fuel"
  define rs where "rs = (case rules of None \<Rightarrow> specified_rules | Some rs \<Rightarrow> rs)"
  from a have "\<forall>rule \<in> set rs. \<forall>context. rule_visit_spread_fragments (rule context) \<noteq> Some True"
    and "size document < fuel"
    by (simp_all add: rs_def)
  from visit_rules_terminates [OF this]
  obtain r where "visit_rules fuel document rs (TypeInfo schema)
      (ValidationContext schema document) [] = Some r"
    by blast
  then show "\<exists>errors. validate specified_rules fuel (Schema schema) (Some document) rules
      = Some (Inr errors)"
    by (simp add: validate_def visit_using_rules_def Let_def rs_def split: prod.splits)
next
  fix fuel and specified :: "unit rule list"
  show "validate specified fuel (Schema schema) (Some cyclic_document) (Some [inlining_rule])
      = None"
    by (rule validate_cycle_never_returns)
qed

theorem validate_terminates_without_inlining_witness:
  "size cyclic_document < 20
   \<and> (\<exists>errors. validate [] 20 (Schema (GraphQLSchema [])) (Some cyclic_document)
        (Some [plain_rule]) = Some (Inr errors))"
proof -
  have size: "size cyclic_document < 20"
    by (simp add: cyclic_document_def document_of_def upt_rec query_A_def fragment_A_def
        selection_A_def spread_A_def)
  have "\<forall>rule \<in> set (case Some [plain_rule] of None \<Rightarrow> [] | Some rs \<Rightarrow> rs).
      \<forall>context. rule_visit_spread_fragments (rule context) \<noteq> Some True"
    by (simp add: plain_rule_def)
  with size validate_terminates_without_inlining
    [where rules = "Some [plain_rule]" and specified_rules = "[]"
      and document = cyclic_document and fuel = 20 and schema = "GraphQLSchema []"]
  have "\<exists>errors. validate [] 20 (Schema (GraphQLSchema [])) (Some cyclic_document)
      (Some [plain_rule]) = Some (Inr errors)"
    by blast
  with size show ?thesis
    by simp
qed

end
